theory Spec2Isabelle
  imports Complex_Main "HOL-Library.Sublist"
begin

section \<open>The event bus (class EventBus of js/core.js)\<close>

text \<open>
  \<^verbatim>\<open>this.events\<close> is a plain object that maps an event name to an array object of
  callbacks. Three facts of the language decide what the operations do, so all three are
  kept in the model:
  \<^item> arrays are objects on a heap: \<^verbatim>\<open>push\<close> changes the array in place, while
    \<^verbatim>\<open>filter\<close> allocates a new array and leaves the old one as it was;
  \<^item> functions are compared by identity (\<^verbatim>\<open>cb !== callback\<close>);
  \<^item> a plain object inherits the properties of \<^verbatim>\<open>Object.prototype\<close>:
    \<^verbatim>\<open>this.events['toString']\<close> is a function although nothing was ever subscribed.

  A callback is a reference: \<open>User i\<close> is the \<open>i\<close>-th function object of the
  application, \<open>Wrapper n\<close> the \<open>n\<close>-th closure \<^verbatim>\<open>wrappedCallback\<close> created by
  \<^verbatim>\<open>once\<close>. The body of an application function is given by a table \<open>prog\<close>: for the
  payload it receives, the calls it makes on the bus, in order (subscribing,
  unsubscribing, clearing, publishing), and whether it ends by raising a fault of its
  own.
\<close>

type_synonym topic = string

datatype callback = User nat | Wrapper nat

datatype 'd action =
    Throw
  | On topic callback
  | Once topic nat
  | Off topic callback
  | Clear "topic option"
  | Emit topic 'd

type_synonym 'd program = "nat \<Rightarrow> 'd \<Rightarrow> 'd action list"

datatype outcome = Returned | Threw

text \<open>
  The field \<open>events\<close> holds the own properties of \<^verbatim>\<open>this.events\<close>. \<open>arrays\<close> is the
  heap of array objects (an address is an index; arrays are never freed), \<open>wrappers\<close>
  the closures made by \<^verbatim>\<open>once\<close>, each with the \<^verbatim>\<open>eventName\<close> and \<^verbatim>\<open>callback\<close> it
  captured. The last three fields observe the run: \<open>delivered\<close> lists the calls
  \<^verbatim>\<open>callback(data)\<close> made by \<^verbatim>\<open>emit\<close>, \<open>invoked\<close> the application functions whose
  body was entered (directly or through a wrapper), \<open>logged\<close> counts the calls of
  \<^verbatim>\<open>console.error\<close>.
\<close>

record 'd EventBus =
  events :: "topic \<Rightarrow> nat option"
  arrays :: "callback list list"
  wrappers :: "(topic \<times> nat) list"
  delivered :: "(callback \<times> 'd) list"
  invoked :: "(nat \<times> 'd) list"
  logged :: nat

definition EventBus_new :: "'d EventBus" where
  "EventBus_new =
     \<lparr>events = Map.empty, arrays = [], wrappers = [], delivered = [], invoked = [], logged = 0\<rparr>"

text \<open>
  The names that every plain object inherits from \<^verbatim>\<open>Object.prototype\<close>. Their values
  are functions (for \<^verbatim>\<open>__proto__\<close>, the prototype object): truthy, and without a method
  \<^verbatim>\<open>push\<close>, \<^verbatim>\<open>filter\<close> or \<^verbatim>\<open>forEach\<close>, so that calling one of these on them raises a
  \<^verbatim>\<open>TypeError\<close>.
\<close>

definition Object_prototype :: "string list" where
  "Object_prototype =
     [''constructor'', ''hasOwnProperty'', ''isPrototypeOf'', ''propertyIsEnumerable'',
      ''toLocaleString'', ''toString'', ''valueOf'', ''__proto__'',
      ''__defineGetter__'', ''__defineSetter__'', ''__lookupGetter__'', ''__lookupSetter__'']"

text \<open>
  \<^verbatim>\<open>this.events[eventName]\<close>: an own property (an array) comes first, then an
  inherited one; otherwise the result is \<^verbatim>\<open>undefined\<close>.
\<close>

datatype property = Absent | Inherited | Array nat

definition lookup :: "'d EventBus \<Rightarrow> topic \<Rightarrow> property" where
  "lookup b eventName =
     (case events b eventName of
        Some a \<Rightarrow> Array a
      | None \<Rightarrow> if eventName \<in> set Object_prototype then Inherited else Absent)"

definition array_at :: "'d EventBus \<Rightarrow> nat \<Rightarrow> callback list" where
  "array_at b a = (if a < length (arrays b) then arrays b ! a else [])"

definition new_array :: "callback list \<Rightarrow> 'd EventBus \<Rightarrow> nat \<times> 'd EventBus" where
  "new_array xs b = (length (arrays b), b\<lparr>arrays := arrays b @ [xs]\<rparr>)"

definition push :: "nat \<Rightarrow> callback \<Rightarrow> 'd EventBus \<Rightarrow> 'd EventBus" where
  "push a cb b = b\<lparr>arrays := (arrays b)[a := array_at b a @ [cb]]\<rparr>"

text \<open>The listeners subscribed to a topic, in subscription order.\<close>

definition listeners :: "'d EventBus \<Rightarrow> topic \<Rightarrow> callback list" where
  "listeners b eventName =
     (case lookup b eventName of Array a \<Rightarrow> array_at b a | Absent \<Rightarrow> [] | Inherited \<Rightarrow> [])"

text \<open>
  \<^verbatim>\<open>on\<close>: an inherited property is truthy, so no array is created for its name, and the
  call of \<^verbatim>\<open>push\<close> raises. The unsubscribe function that \<^verbatim>\<open>on\<close> returns is not a value
  of the model; calling it is \<open>off eventName cb\<close>.
\<close>

definition on :: "topic \<Rightarrow> callback \<Rightarrow> 'd EventBus \<Rightarrow> 'd EventBus \<times> outcome" where
  "on eventName cb b =
     (case lookup b eventName of
        Absent \<Rightarrow>
          (case new_array [] b of
             (a, b1) \<Rightarrow> (push a cb (b1\<lparr>events := (events b1)(eventName \<mapsto> a)\<rparr>), Returned))
      | Array a \<Rightarrow> (push a cb b, Returned)
      | Inherited \<Rightarrow> (b, Threw))"

text \<open>\<^verbatim>\<open>off\<close>: for an inherited name the call of \<^verbatim>\<open>filter\<close> raises.\<close>

definition off :: "topic \<Rightarrow> callback \<Rightarrow> 'd EventBus \<Rightarrow> 'd EventBus \<times> outcome" where
  "off eventName cb b =
     (case lookup b eventName of
        Absent \<Rightarrow> (b, Returned)
      | Array a \<Rightarrow>
          (case new_array (filter (\<lambda>c. c \<noteq> cb) (array_at b a)) b of
             (a', b1) \<Rightarrow> (b1\<lparr>events := (events b1)(eventName \<mapsto> a')\<rparr>, Returned))
      | Inherited \<Rightarrow> (b, Threw))"

text \<open>\<^verbatim>\<open>once\<close> creates the wrapper and hands it to \<^verbatim>\<open>on\<close>.\<close>

definition once :: "topic \<Rightarrow> nat \<Rightarrow> 'd EventBus \<Rightarrow> 'd EventBus \<times> outcome" where
  "once eventName i b =
     on eventName (Wrapper (length (wrappers b)))
       (b\<lparr>wrappers := wrappers b @ [(eventName, i)]\<rparr>)"

text \<open>
  \<^verbatim>\<open>clear\<close>: an absent name and the empty string are both falsy and clear every topic;
  \<^verbatim>\<open>delete\<close> of a name that is not an own property does nothing.
\<close>

fun clear :: "topic option \<Rightarrow> 'd EventBus \<Rightarrow> 'd EventBus" where
  "clear None b = b\<lparr>events := Map.empty\<rparr>"
| "clear (Some eventName) b =
     (if eventName = [] then b\<lparr>events := Map.empty\<rparr>
      else b\<lparr>events := (events b)(eventName := None)\<rparr>)"

text \<open>
  A listener that publishes calls \<^verbatim>\<open>emit\<close> again, and such calls may nest without end.
  A run therefore has a result only up to a bound on the depth of nested \<^verbatim>\<open>emit\<close>
  calls: \<open>None\<close> says that the bound was reached. The body of a function runs its calls
  in order; a call that raises ends the body with that fault. \<open>em\<close> is \<^verbatim>\<open>emit\<close> with
  the depth that is left.
\<close>

type_synonym 'd result = "('d EventBus \<times> outcome) option"

type_synonym 'd publisher = "topic \<Rightarrow> 'd \<Rightarrow> 'd EventBus \<Rightarrow> 'd result"

fun run_actions :: "'d publisher \<Rightarrow> 'd action list \<Rightarrow> 'd EventBus \<Rightarrow> 'd result" where
  "run_actions em [] b = Some (b, Returned)"
| "run_actions em (Throw # rest) b = Some (b, Threw)"
| "run_actions em (On t cb # rest) b =
     (case on t cb b of
        (b', Threw) \<Rightarrow> Some (b', Threw)
      | (b', Returned) \<Rightarrow> run_actions em rest b')"
| "run_actions em (Once t i # rest) b =
     (case once t i b of
        (b', Threw) \<Rightarrow> Some (b', Threw)
      | (b', Returned) \<Rightarrow> run_actions em rest b')"
| "run_actions em (Off t cb # rest) b =
     (case off t cb b of
        (b', Threw) \<Rightarrow> Some (b', Threw)
      | (b', Returned) \<Rightarrow> run_actions em rest b')"
| "run_actions em (Clear t # rest) b = run_actions em rest (clear t b)"
| "run_actions em (Emit t d # rest) b =
     (case em t d b of
        None \<Rightarrow> None
      | Some (b', Threw) \<Rightarrow> Some (b', Threw)
      | Some (b', Returned) \<Rightarrow> run_actions em rest b')"

definition call_user ::
  "'d publisher \<Rightarrow> 'd program \<Rightarrow> nat \<Rightarrow> 'd \<Rightarrow> 'd EventBus \<Rightarrow> 'd result" where
  "call_user em prog i d b = run_actions em (prog i d) (b\<lparr>invoked := invoked b @ [(i, d)]\<rparr>)"

text \<open>
  Calling a callback. The wrapper of \<^verbatim>\<open>once\<close> is
  \<^verbatim>\<open>(data) => { callback(data); this.off(eventName, wrappedCallback); }\<close>:
  a fault of \<^verbatim>\<open>callback\<close> leaves the wrapper before \<^verbatim>\<open>off\<close> is reached. A reference
  that is no function object cannot be called: the call raises.
\<close>

definition call_callback ::
  "'d publisher \<Rightarrow> 'd program \<Rightarrow> callback \<Rightarrow> 'd \<Rightarrow> 'd EventBus \<Rightarrow> 'd result" where
  "call_callback em prog cb d b =
     (case cb of
        User i \<Rightarrow> call_user em prog i d b
      | Wrapper n \<Rightarrow>
          (if n < length (wrappers b) then
             (case wrappers b ! n of
                (eventName, i) \<Rightarrow>
                  (case call_user em prog i d b of
                     None \<Rightarrow> None
                   | Some (b', Threw) \<Rightarrow> Some (b', Threw)
                   | Some (b', Returned) \<Rightarrow> Some (off eventName (Wrapper n) b')))
           else Some (b, Threw)))"

text \<open>
  The function that \<^verbatim>\<open>emit\<close> hands to \<^verbatim>\<open>forEach\<close>:
  \<^verbatim>\<open>callback => { try { callback(data); } catch (error) { console.error(...); } }\<close>.
\<close>

definition deliver ::
  "'d publisher \<Rightarrow> 'd program \<Rightarrow> 'd \<Rightarrow> callback \<Rightarrow> 'd EventBus \<Rightarrow> 'd result" where
  "deliver em prog d cb b =
     (case call_callback em prog cb d (b\<lparr>delivered := delivered b @ [(cb, d)]\<rparr>) of
        None \<Rightarrow> None
      | Some (b', Threw) \<Rightarrow> Some (b'\<lparr>logged := Suc (logged b')\<rparr>, Returned)
      | Some (b', Returned) \<Rightarrow> Some (b', Returned))"

text \<open>
  \<^verbatim>\<open>Array.prototype.forEach\<close> on the array object at address \<open>a\<close>: the length is read
  once, before the first call; the element at index \<open>k\<close> is read from the heap when its
  turn comes; an index that is no longer present is skipped; a fault of the function
  given to it ends the loop and is passed on.
\<close>

function Array_forEach_from ::
  "(callback \<Rightarrow> 'd EventBus \<Rightarrow> 'd result) \<Rightarrow> nat \<Rightarrow> nat \<Rightarrow> nat \<Rightarrow> 'd EventBus \<Rightarrow> 'd result" where
  "Array_forEach_from f a k len b =
     (if k < len then
        (if k < length (array_at b a) then
           (case f (array_at b a ! k) b of
              None \<Rightarrow> None
            | Some (b', Threw) \<Rightarrow> Some (b', Threw)
            | Some (b', Returned) \<Rightarrow> Array_forEach_from f a (k + 1) len b')
         else Array_forEach_from f a (k + 1) len b)
      else Some (b, Returned))"
  by pat_completeness auto
termination
  by (relation "measure (\<lambda>(f, a, k, len, b). len - k)") auto

definition Array_forEach ::
  "(callback \<Rightarrow> 'd EventBus \<Rightarrow> 'd result) \<Rightarrow> nat \<Rightarrow> 'd EventBus \<Rightarrow> 'd result" where
  "Array_forEach f a b = Array_forEach_from f a 0 (length (array_at b a)) b"

text \<open>
  \<^verbatim>\<open>emit\<close>, with the depth of nested \<^verbatim>\<open>emit\<close> calls that it may still open as its
  first argument. For an inherited name the condition is truthy and the call of
  \<^verbatim>\<open>forEach\<close> raises, outside of any \<^verbatim>\<open>try\<close>.
\<close>

primrec emit :: "nat \<Rightarrow> 'd program \<Rightarrow> topic \<Rightarrow> 'd \<Rightarrow> 'd EventBus \<Rightarrow> 'd result" where
  "emit 0 prog eventName d b = None"
| "emit (Suc n) prog eventName d b =
     (case lookup b eventName of
        Absent \<Rightarrow> Some (b, Returned)
      | Inherited \<Rightarrow> Some (b, Threw)
      | Array a \<Rightarrow> Array_forEach (deliver (emit n prog) prog d) a b)"

section \<open>Entities and characters (classes Entity and Character)\<close>

text \<open>
  A JavaScript number is modelled as a real: the rounding of IEEE doubles, \<^verbatim>\<open>NaN\<close> and
  the infinities are outside the model. A \<^verbatim>\<open>config\<close> object is a map from property
  names to numbers; a property that is absent reads as \<^verbatim>\<open>undefined\<close>.
\<close>

text \<open>\<^verbatim>\<open>v || dflt\<close> on a numeric property: \<^verbatim>\<open>undefined\<close> and \<open>0\<close> are falsy.\<close>

definition js_or :: "real option \<Rightarrow> real \<Rightarrow> real" where
  "js_or v dflt = (case v of None \<Rightarrow> dflt | Some n \<Rightarrow> if n = 0 then dflt else n)"

definition Math_floor :: "real \<Rightarrow> real" where
  "Math_floor v = of_int \<lfloor>v\<rfloor>"

text \<open>\<^verbatim>\<open>Math.round\<close> rounds to the nearest integer, a half towards \<open>+\<infinity>\<close>.\<close>

definition Math_round :: "real \<Rightarrow> real" where
  "Math_round v = of_int \<lfloor>v + 1 / 2\<rfloor>"

text \<open>
  An object reference to an engine is a number; \<open>engine = None\<close> is \<^verbatim>\<open>null\<close>. The
  \<^verbatim>\<open>components\<close> map and the \<^verbatim>\<open>tags\<close> set of an entity, and the inventory and status
  effects of a character, are read by none of the operations below and are left out.
  The field \<^verbatim>\<open>id\<close> is written \<open>id'\<close>.
\<close>

record Entity =
  id' :: nat
  name :: string
  x :: real
  y :: real
  active :: bool
  visible :: bool
  engine :: "nat option"

record Stats =
  strength :: real
  dexterity :: real
  constitution :: real
  intelligence :: real
  wisdom :: real
  charisma :: real

text \<open>An item of equipment: its optional \<^verbatim>\<open>attack\<close> and \<^verbatim>\<open>defense\<close> properties.\<close>

record Item =
  item_attack :: "real option"
  item_defense :: "real option"

record Equipment =
  head :: "Item option"
  chest :: "Item option"
  hands :: "Item option"
  legs :: "Item option"
  feet :: "Item option"
  mainHand :: "Item option"
  offHand :: "Item option"

record Character = Entity +
  level :: real
  experience :: real
  health :: real
  maxHealth :: real
  mana :: real
  maxMana :: real
  stats :: Stats
  attack :: real
  defense :: real
  attackSpeed :: real
  movementSpeed :: real
  equipment :: Equipment
  isAlive :: bool
  isInCombat :: bool

definition Character_new :: "nat \<Rightarrow> string \<Rightarrow> (string \<Rightarrow> real option) \<Rightarrow> Character" where
  "Character_new i n config =
     \<lparr>id' = i, name = n,
      x = js_or (config ''x'') 0, y = js_or (config ''y'') 0,
      active = True, visible = True, engine = None,
      level = js_or (config ''level'') 1,
      experience = js_or (config ''experience'') 0,
      health = js_or (config ''health'') 100,
      maxHealth = js_or (config ''maxHealth'') 100,
      mana = js_or (config ''mana'') 50,
      maxMana = js_or (config ''maxMana'') 50,
      stats =
        \<lparr>strength = js_or (config ''strength'') 10,
         dexterity = js_or (config ''dexterity'') 10,
         constitution = js_or (config ''constitution'') 10,
         intelligence = js_or (config ''intelligence'') 10,
         wisdom = js_or (config ''wisdom'') 10,
         charisma = js_or (config ''charisma'') 10\<rparr>,
      attack = js_or (config ''attack'') 5,
      defense = js_or (config ''defense'') 5,
      attackSpeed = js_or (config ''attackSpeed'') 1,
      movementSpeed = js_or (config ''movementSpeed'') 100,
      equipment =
        \<lparr>head = None, chest = None, hands = None, legs = None, feet = None,
         mainHand = None, offHand = None\<rparr>,
      isAlive = True, isInCombat = False\<rparr>"

text \<open>
  A call \<^verbatim>\<open>this.engine.eventBus.emit(eventName, data)\<close> is recorded as the triple of the
  engine, the event name and the payload. The payload holds a reference to the character;
  it is recorded as the character at the moment of the call. What the listeners of the
  engine's bus do with the event is the event bus above and not repeated here; the event
  names used here are not inherited property names, so that \<^verbatim>\<open>emit\<close> does not raise a
  fault of its own.
\<close>

datatype data =
    Character_data Character
  | LevelUp_data Character real

type_synonym 'p published = "nat \<times> string \<times> 'p"

text \<open>The value returned by \<^verbatim>\<open>takeDamage\<close> and by \<^verbatim>\<open>heal\<close> is the new \<open>health\<close>.\<close>

definition takeDamage :: "real \<Rightarrow> Character \<Rightarrow> Character \<times> data published list" where
  "takeDamage amount c =
     (let c1 = c\<lparr>health := health c - amount\<rparr> in
      if health c1 \<le> 0 then
        (let c2 = c1\<lparr>health := 0, isAlive := False\<rparr> in
         (c2, case engine c2 of
                None \<Rightarrow> []
              | Some e \<Rightarrow> [(e, ''character:died'', Character_data c2)]))
      else (c1, []))"

definition heal :: "real \<Rightarrow> Character \<Rightarrow> Character" where
  "heal amount c = c\<lparr>health := min (health c + amount) (maxHealth c)\<rparr>"

definition levelUp :: "real \<Rightarrow> Character \<Rightarrow> Character \<times> data published list" where
  "levelUp newLevel c =
     (let levelDifference = newLevel - level c;
          c1 = c\<lparr>level := newLevel,
                 maxHealth := maxHealth c + 10 * levelDifference,
                 maxMana := maxMana c + 5 * levelDifference\<rparr>;
          c2 = c1\<lparr>health := maxHealth c1, mana := maxMana c1\<rparr>
      in (c2, case engine c2 of
                None \<Rightarrow> []
              | Some e \<Rightarrow> [(e, ''character:levelUp'', LevelUp_data c2 newLevel)]))"

definition addExperience :: "real \<Rightarrow> Character \<Rightarrow> Character \<times> data published list" where
  "addExperience amount c =
     (let c1 = c\<lparr>experience := experience c + amount\<rparr>;
          newLevel = Math_floor (experience c1 / 100) + 1
      in if newLevel > level c1 then levelUp newLevel c1 else (c1, []))"

text \<open>Sequences of calls on one character, with the events they publish, in order.\<close>

datatype operation = TakeDamage real | Heal real | AddExperience real | LevelUp real

fun apply_operation :: "operation \<Rightarrow> Character \<Rightarrow> Character \<times> data published list" where
  "apply_operation (TakeDamage amount) c = takeDamage amount c"
| "apply_operation (Heal amount) c = (heal amount c, [])"
| "apply_operation (AddExperience amount) c = addExperience amount c"
| "apply_operation (LevelUp newLevel) c = levelUp newLevel c"

fun apply_operations :: "operation list \<Rightarrow> Character \<Rightarrow> Character \<times> data published list" where
  "apply_operations [] c = (c, [])"
| "apply_operations (opn # opns) c =
     (case apply_operation opn c of
        (c1, evs1) \<Rightarrow> (case apply_operations opns c1 of (c2, evs2) \<Rightarrow> (c2, evs1 @ evs2)))"

text \<open>The state predicate of the data model.\<close>

definition health_invariant :: "Character \<Rightarrow> bool" where
  "health_invariant c \<longleftrightarrow>
     0 \<le> health c \<and> health c \<le> maxHealth c \<and> (\<not> isAlive c \<longleftrightarrow> health c = 0)"

text \<open>
  The calls under which the predicate is kept: no negative damage or healing, and no
  healing, experience or level-up for a character that is dead, no level-up to a lower
  level.
\<close>

fun admissible :: "operation \<Rightarrow> Character \<Rightarrow> bool" where
  "admissible (TakeDamage amount) c \<longleftrightarrow> 0 \<le> amount"
| "admissible (Heal amount) c \<longleftrightarrow> 0 \<le> amount \<and> isAlive c"
| "admissible (AddExperience amount) c \<longleftrightarrow> isAlive c"
| "admissible (LevelUp newLevel) c \<longleftrightarrow> level c \<le> newLevel \<and> isAlive c"

fun all_admissible :: "operation list \<Rightarrow> Character \<Rightarrow> bool" where
  "all_admissible [] c \<longleftrightarrow> True"
| "all_admissible (opn # opns) c \<longleftrightarrow>
     admissible opn c \<and> all_admissible opns (fst (apply_operation opn c))"

definition died_events :: "data published list \<Rightarrow> data published list" where
  "died_events evs = filter (\<lambda>ev. fst (snd ev) = ''character:died'') evs"

definition levelUp_events :: "data published list \<Rightarrow> data published list" where
  "levelUp_events evs = filter (\<lambda>ev. fst (snd ev) = ''character:levelUp'') evs"

section \<open>Combat (class CombatSystem)\<close>

definition calculateTotalAttack :: "Character \<Rightarrow> real" where
  "calculateTotalAttack c =
     (case mainHand (equipment c) of
        None \<Rightarrow> attack c
      | Some item \<Rightarrow> attack c + js_or (item_attack item) 0)"

text \<open>\<^verbatim>\<open>if (item && item.defense) total += item.defense\<close>, for one slot.\<close>

definition add_defense :: "Item option \<Rightarrow> real \<Rightarrow> real" where
  "add_defense slot total' =
     (case slot of
        None \<Rightarrow> total'
      | Some item \<Rightarrow>
          (case item_defense item of
             None \<Rightarrow> total'
           | Some v \<Rightarrow> if v = 0 then total' else total' + v))"

definition calculateTotalDefense :: "Character \<Rightarrow> real" where
  "calculateTotalDefense c =
     fold add_defense
       [head (equipment c), chest (equipment c), hands (equipment c), legs (equipment c),
        feet (equipment c), mainHand (equipment c), offHand (equipment c)]
       (defense c)"

text \<open>
  The values of \<^verbatim>\<open>Math.random()\<close> are inputs, in the order in which they are drawn:
  the hit roll, the critical roll, the variance roll.
\<close>

definition calculateDamage :: "real \<Rightarrow> Character \<Rightarrow> Character \<Rightarrow> real \<Rightarrow> real" where
  "calculateDamage random attacker defender baseMultiplier =
     (let attackPower = calculateTotalAttack attacker * baseMultiplier;
          defenseReduction = calculateTotalDefense defender * (1 / 2);
          variance = random * (2 / 10) - 1 / 10;
          dmg = max 1 ((attackPower - defenseReduction) * (1 + variance))
      in Math_round dmg)"

record AttackResult =
  hit :: bool
  damage :: real
  critical :: bool

definition hitChance :: "Character \<Rightarrow> Character \<Rightarrow> real" where
  "hitChance attacker defender =
     min (95 / 100) (1 / 2 + (dexterity (stats attacker) - dexterity (stats defender)) * (1 / 100))"

definition performAttack ::
  "real \<Rightarrow> real \<Rightarrow> real \<Rightarrow> Character \<Rightarrow> Character
     \<Rightarrow> AttackResult \<times> Character \<times> data published list" where
  "performAttack random1 random2 random3 attacker defender =
     (if random1 > hitChance attacker defender then
        (\<lparr>hit = False, damage = 0, critical = False\<rparr>, defender, [])
      else
        (let isCritical = random2 < dexterity (stats attacker) / 100;
             multiplier = (if isCritical then 3 / 2 else 1);
             dmg = calculateDamage random3 attacker defender multiplier
         in case takeDamage dmg defender of
              (defender', evs) \<Rightarrow>
                (\<lparr>hit = True, damage = dmg, critical = isCritical\<rparr>, defender', evs)))"

section \<open>The entity registry of the engine (class RPGEngine)\<close>

text \<open>
  \<^verbatim>\<open>this.entities\<close> is a \<^verbatim>\<open>Map\<close>: an association list in insertion order with distinct
  keys. \<^verbatim>\<open>set\<close> replaces the value of a key that is present, in its place, and appends a
  new key.
\<close>

fun Map_set :: "'k \<Rightarrow> 'v \<Rightarrow> ('k \<times> 'v) list \<Rightarrow> ('k \<times> 'v) list" where
  "Map_set k v [] = [(k, v)]"
| "Map_set k v (p # ps) = (if fst p = k then (k, v) # ps else p # Map_set k v ps)"

definition Map_get :: "('k \<times> 'v) list \<Rightarrow> 'k \<Rightarrow> 'v option" where
  "Map_get m k = map_of m k"

definition Map_size :: "('k \<times> 'v) list \<Rightarrow> nat" where
  "Map_size m = length m"

text \<open>
  \<open>self\<close> is the identity of the engine object, the value stored in the \<open>engine\<close> field of
  its entities. \<open>config\<close> is \<^verbatim>\<open>this.config\<close>.
\<close>

record 'a RPGEngine =
  self :: nat
  config :: "string \<Rightarrow> real option"
  entities :: "(nat \<times> 'a Entity_scheme) list"

text \<open>
  The constructor: each default is computed with \<^verbatim>\<open>||\<close>, and then \<^verbatim>\<open>...config\<close>
  copies every property of the given object over it.
\<close>

definition RPGEngine_new :: "nat \<Rightarrow> (string \<Rightarrow> real option) \<Rightarrow> 'a RPGEngine" where
  "RPGEngine_new ref cfg =
     \<lparr>self = ref,
      config =
        [''fps'' \<mapsto> js_or (cfg ''fps'') 60,
         ''maxEntities'' \<mapsto> js_or (cfg ''maxEntities'') 1000,
         ''screenWidth'' \<mapsto> js_or (cfg ''screenWidth'') 800,
         ''screenHeight'' \<mapsto> js_or (cfg ''screenHeight'') 600] ++ cfg,
      entities = []\<rparr>"

text \<open>
  \<^verbatim>\<open>this.entities.size >= this.config.maxEntities\<close>: a comparison with
  \<^verbatim>\<open>undefined\<close> is false.
\<close>

definition limit_reached :: "'a RPGEngine \<Rightarrow> bool" where
  "limit_reached e =
     (case config e ''maxEntities'' of
        None \<Rightarrow> False
      | Some m \<Rightarrow> real (Map_size (entities e)) \<ge> m)"

definition addEntity ::
  "'a Entity_scheme \<Rightarrow> 'a RPGEngine
     \<Rightarrow> bool \<times> 'a RPGEngine \<times> 'a Entity_scheme \<times> 'a Entity_scheme published list" where
  "addEntity entity e =
     (if limit_reached e then (False, e, entity, [])
      else
        (let entity' = entity\<lparr>engine := Some (self e)\<rparr>;
             e' = e\<lparr>entities := Map_set (id' entity) entity' (entities e)\<rparr>
         in (True, e', entity', [(self e, ''entity:added'', entity')])))"

section \<open>Notions used to state the properties\<close>

text \<open>
  One delivery pass over a fixed list of callbacks: the function given to
  \<^verbatim>\<open>forEach\<close>, applied to each callback in turn.
\<close>

fun deliver_all ::
  "'d publisher \<Rightarrow> 'd program \<Rightarrow> 'd \<Rightarrow> callback list \<Rightarrow> 'd EventBus \<Rightarrow> 'd EventBus option" where
  "deliver_all em prog d [] b = Some b"
| "deliver_all em prog d (cb # cbs) b =
     (case deliver em prog d cb b of
        None \<Rightarrow> None
      | Some (b', out) \<Rightarrow> deliver_all em prog d cbs b')"

text \<open>The actions that publish, and the actions that can raise a fault.\<close>

fun publishes :: "'d action \<Rightarrow> bool" where
  "publishes (Emit t d) = True"
| "publishes other = False"

fun may_fault :: "'d action \<Rightarrow> bool" where
  "may_fault Throw = True"
| "may_fault (On t cb) = (t \<in> set Object_prototype)"
| "may_fault (Once t i) = (t \<in> set Object_prototype)"
| "may_fault (Off t cb) = (t \<in> set Object_prototype)"
| "may_fault (Clear u) = False"
| "may_fault (Emit t d) = (t \<in> set Object_prototype)"

text \<open>The bus after an action that does not publish.\<close>

fun primitive :: "'d action \<Rightarrow> 'd EventBus \<Rightarrow> 'd EventBus" where
  "primitive Throw b = b"
| "primitive (On t cb) b = fst (on t cb b)"
| "primitive (Once t i) b = fst (once t i b)"
| "primitive (Off t cb) b = fst (off t cb b)"
| "primitive (Clear u) b = clear u b"
| "primitive (Emit t d) b = b"

text \<open>
  Heap facts. In a well-formed bus every topic's array has been allocated and no two
  topics share an array. A callback is known when its function object exists.
  \<open>grows b b'\<close>: from \<open>b\<close> to \<open>b'\<close> no array object was freed and every array object of
  \<open>b\<close> kept its elements, in place. \<open>extends b b'\<close>: moreover the closures and the
  observations of \<open>b\<close> are still there.
\<close>

definition well_formed :: "'d EventBus \<Rightarrow> bool" where
  "well_formed b \<longleftrightarrow>
     (\<forall>t a. events b t = Some a \<longrightarrow> a < length (arrays b)) \<and>
     (\<forall>t t' a. events b t = Some a \<longrightarrow> events b t' = Some a \<longrightarrow> t = t')"

fun known :: "'d EventBus \<Rightarrow> callback \<Rightarrow> bool" where
  "known b (User i) = True"
| "known b (Wrapper n) = (n < length (wrappers b))"

definition grows :: "'d EventBus \<Rightarrow> 'd EventBus \<Rightarrow> bool" where
  "grows b b' \<longleftrightarrow>
     length (arrays b) \<le> length (arrays b') \<and>
     (\<forall>a < length (arrays b). prefix (arrays b ! a) (arrays b' ! a))"

definition extends :: "'d EventBus \<Rightarrow> 'd EventBus \<Rightarrow> bool" where
  "extends b b' \<longleftrightarrow>
     grows b b' \<and> prefix (wrappers b) (wrappers b') \<and> prefix (delivered b) (delivered b') \<and>
     prefix (invoked b) (invoked b') \<and> logged b \<le> logged b'"

text \<open>The callback exists and is not among the listeners of the topic.\<close>

definition unsubscribed :: "'d EventBus \<Rightarrow> topic \<Rightarrow> callback \<Rightarrow> bool" where
  "unsubscribed b t cb \<longleftrightarrow> well_formed b \<and> known b cb \<and> cb \<notin> set (listeners b t)"

text \<open>
  A relation between the bus before and after that holds across every step of a run
  whose actions are all \<open>allowed\<close>; and a publisher whose results are in the relation.
\<close>

definition frame ::
  "('d EventBus \<Rightarrow> 'd EventBus \<Rightarrow> bool) \<Rightarrow> ('d action \<Rightarrow> bool) \<Rightarrow> bool" where
  "frame R allowed \<longleftrightarrow>
     (\<forall>b. R b b) \<and>
     (\<forall>b1 b2 b3. R b1 b2 \<longrightarrow> R b2 b3 \<longrightarrow> R b1 b3) \<and>
     (\<forall>act b. allowed act \<longrightarrow> R b (primitive act b)) \<and>
     (\<forall>t c b. R b (fst (off t c b))) \<and>
     (\<forall>e b. R b (b\<lparr>invoked := invoked b @ [e]\<rparr>)) \<and>
     (\<forall>e b. R b (b\<lparr>delivered := delivered b @ [e]\<rparr>)) \<and>
     (\<forall>b. R b (b\<lparr>logged := Suc (logged b)\<rparr>))"

definition results_in :: "('d EventBus \<Rightarrow> 'd EventBus \<Rightarrow> bool) \<Rightarrow> 'd publisher \<Rightarrow> bool" where
  "results_in R em \<longleftrightarrow> (\<forall>t d b b' out. em t d b = Some (b', out) \<longrightarrow> R b b')"

section \<open>Scenarios\<close>

text \<open>Three listeners of one topic, the second of which raises a fault.\<close>

definition middle_faults :: "unit program" where
  "middle_faults i d = (if i = 1 then [Throw] else [])"

definition three_listeners :: "unit EventBus" where
  "three_listeners =
     fst (on ''t'' (User 2) (fst (on ''t'' (User 1) (fst (on ''t'' (User 0) EventBus_new)))))"

text \<open>
  The same three listeners and a listener of a second topic; the first listener publishes
  on the second topic, the second raises a fault.
\<close>

definition first_publishes :: "unit program" where
  "first_publishes i d = (if i = 0 then [Emit ''u'' ()] else if i = 1 then [Throw] else [])"

definition four_listeners :: "unit EventBus" where
  "four_listeners = fst (on ''u'' (User 3) three_listeners)"

text \<open>
  Two listeners of one topic. The first subscribes a third function to another topic,
  unsubscribes the second listener and then raises a fault.
\<close>

definition first_removes_second :: "unit program" where
  "first_removes_second i d =
     (if i = 0 then [On ''u'' (User 2), Off ''t'' (User 1), Throw] else [])"

definition two_listeners :: "unit EventBus" where
  "two_listeners = fst (on ''t'' (User 1) (fst (on ''t'' (User 0) EventBus_new)))"

text \<open>
  The first listener calls \<^verbatim>\<open>off\<close> with an inherited name before it unsubscribes the
  second.
\<close>

definition first_uses_inherited_name :: "unit program" where
  "first_uses_inherited_name i d =
     (if i = 0 then [Off ''constructor'' (User 9), Off ''t'' (User 1)] else [])"

text \<open>A listener subscribed with \<^verbatim>\<open>once\<close> that raises a fault whenever it is called.\<close>

definition always_faults :: "unit program" where
  "always_faults i d = [Throw]"

definition once_subscribed :: "unit EventBus" where
  "once_subscribed = fst (once ''t'' 0 EventBus_new)"

text \<open>
  A character built with an empty \<^verbatim>\<open>config\<close>; the same character once an engine (with
  reference \<open>0\<close>) has taken it in; and both after a blow of 100.
\<close>

definition hero :: Character where
  "hero = Character_new 1 ''hero'' Map.empty"

definition registered_hero :: Character where
  "registered_hero = hero\<lparr>engine := Some 0\<rparr>"

definition fallen_hero :: Character where
  "fallen_hero = fst (takeDamage 100 hero)"

definition fallen_registered_hero :: Character where
  "fallen_registered_hero = fst (takeDamage 100 registered_hero)"

text \<open>A second character, of dexterity 60.\<close>

definition rival :: Character where
  "rival = Character_new 2 ''rival'' [''dexterity'' \<mapsto> 60]"

text \<open>The level agrees with the experience: 100 points of experience for each level.\<close>

definition level_of_experience :: "Character \<Rightarrow> bool" where
  "level_of_experience c \<longleftrightarrow> level c = Math_floor (experience c / 100) + 1"

text \<open>An engine configured for one entity at most, holding characters.\<close>

definition small_engine :: "unit Character_ext RPGEngine" where
  "small_engine = RPGEngine_new 0 [''maxEntities'' \<mapsto> 1]"

text \<open>A \<^verbatim>\<open>config\<close> that sets four fields to \<open>0\<close>.\<close>

definition zero_config :: "string \<Rightarrow> real option" where
  "zero_config = [''health'' \<mapsto> 0, ''level'' \<mapsto> 0, ''attack'' \<mapsto> 0, ''mana'' \<mapsto> 0]"

section \<open>Properties of the event bus\<close>

subsection \<open>Relations that hold across a run\<close>

lemma frameD:
  assumes "frame R allowed"
  shows "R b b"
    and "R b1 b2 \<Longrightarrow> R b2 b3 \<Longrightarrow> R b1 b3"
    and "allowed act \<Longrightarrow> R b (primitive act b)"
    and "R b (fst (off t c b))"
    and "R b (b\<lparr>invoked := invoked b @ [e]\<rparr>)"
    and "R b (b\<lparr>delivered := delivered b @ [e']\<rparr>)"
    and "R b (b\<lparr>logged := Suc (logged b)\<rparr>)"
  using assms unfolding frame_def by blast+

lemma results_inD: "results_in R em \<Longrightarrow> em t d b = Some (b', out) \<Longrightarrow> R b b'"
  unfolding results_in_def by blast

lemma run_actions_frame:
  assumes f: "frame R allowed" and r: "results_in R em"
  shows "\<forall>act \<in> set acts. allowed act \<Longrightarrow> run_actions em acts b = Some (b', out) \<Longrightarrow> R b b'"
proof (induction acts arbitrary: b)
  case Nil
  then show ?case using frameD(1) [OF f] by simp
next
  case (Cons act acts)
  have al: "allowed act" and rest: "\<forall>act \<in> set acts. allowed act"
    using Cons.prems(1) by simp_all
  have st: "R b (primitive act b)" using frameD(3) [OF f al] .
  have go: "R b b'" if "R b b1" "b1 = b' \<or> run_actions em acts b1 = Some (b', out)" for b1
  proof -
    from that(2) have "R b1 b'"
    proof
      assume "b1 = b'"
      then show ?thesis using frameD(1) [OF f] by simp
    next
      assume "run_actions em acts b1 = Some (b', out)"
      then show ?thesis using Cons.IH [OF rest] by simp
    qed
    then show ?thesis using that(1) frameD(2) [OF f] by blast
  qed
  show ?case
  proof (cases act)
    case Throw
    then show ?thesis using Cons.prems(2) frameD(1) [OF f] by simp
  next
    case (On t cb)
    obtain b1 o1 where s: "on t cb b = (b1, o1)" by (cases "on t cb b")
    have 1: "R b b1" using st On s by simp
    have 2: "b1 = b' \<or> run_actions em acts b1 = Some (b', out)"
      using Cons.prems(2) On s by (cases o1) simp_all
    show ?thesis using go [OF 1 2] .
  next
    case (Once t i)
    obtain b1 o1 where s: "once t i b = (b1, o1)" by (cases "once t i b")
    have 1: "R b b1" using st Once s by simp
    have 2: "b1 = b' \<or> run_actions em acts b1 = Some (b', out)"
      using Cons.prems(2) Once s by (cases o1) simp_all
    show ?thesis using go [OF 1 2] .
  next
    case (Off t cb)
    obtain b1 o1 where s: "off t cb b = (b1, o1)" by (cases "off t cb b")
    have 1: "R b b1" using st Off s by simp
    have 2: "b1 = b' \<or> run_actions em acts b1 = Some (b', out)"
      using Cons.prems(2) Off s by (cases o1) simp_all
    show ?thesis using go [OF 1 2] .
  next
    case (Clear u)
    have 1: "R b (clear u b)" using st Clear by simp
    have 2: "clear u b = b' \<or> run_actions em acts (clear u b) = Some (b', out)"
      using Cons.prems(2) Clear by simp
    show ?thesis using go [OF 1 2] .
  next
    case (Emit t d)
    show ?thesis
    proof (cases "em t d b")
      case None
      then show ?thesis using Cons.prems(2) Emit by simp
    next
      case (Some p)
      obtain b1 o1 where p: "p = (b1, o1)" by (cases p)
      have 1: "R b b1" using results_inD [OF r] Some p by blast
      have 2: "b1 = b' \<or> run_actions em acts b1 = Some (b', out)"
        using Cons.prems(2) Emit Some p by (cases o1) simp_all
      show ?thesis using go [OF 1 2] .
    qed
  qed
qed

lemma call_user_frame:
  assumes "frame R allowed" "results_in R em" "\<forall>act \<in> set (prog i d). allowed act"
    "call_user em prog i d b = Some (b', out)"
  shows "R b b'"
proof -
  have "R (b\<lparr>invoked := invoked b @ [(i, d)]\<rparr>) b'"
    using run_actions_frame [OF assms(1,2,3)] assms(4) by (simp add: call_user_def)
  then show ?thesis using frameD(2,5) [OF assms(1)] by blast
qed

lemma call_callback_frame:
  assumes f: "frame R allowed" and r: "results_in R em"
    and al: "\<forall>j. \<forall>act \<in> set (prog j d). allowed act"
    and c: "call_callback em prog cb d b = Some (b', out)"
  shows "R b b'"
proof (cases cb)
  case (User i)
  then show ?thesis
    using call_user_frame [of R allowed em prog i d b b' out] f r al c
    by (simp add: call_callback_def)
next
  case (Wrapper n)
  show ?thesis
  proof (cases "n < length (wrappers b)")
    case False
    then show ?thesis using Wrapper c frameD(1) [OF f] by (simp add: call_callback_def)
  next
    case True
    obtain t i where w: "wrappers b ! n = (t, i)" by (cases "wrappers b ! n")
    show ?thesis
    proof (cases "call_user em prog i d b")
      case None
      then show ?thesis using Wrapper True w c by (simp add: call_callback_def)
    next
      case (Some p)
      obtain b1 o1 where p: "p = (b1, o1)" by (cases p)
      have 1: "R b b1"
        using call_user_frame [of R allowed em prog i d b b1 o1] f r al Some p by simp
      have 2: "R b1 (fst (off t (Wrapper n) b1))" using frameD(4) [OF f] .
      have "b' = b1 \<or> b' = fst (off t (Wrapper n) b1)"
        using Wrapper True w c Some p by (cases o1) (auto simp: call_callback_def)
      then show ?thesis using 1 2 frameD(2) [OF f] by blast
    qed
  qed
qed

lemma deliver_frame:
  assumes f: "frame R allowed" and r: "results_in R em"
    and al: "\<forall>j. \<forall>act \<in> set (prog j d). allowed act"
    and c: "deliver em prog d cb b = Some (b', out)"
  shows "R b b'"
proof -
  let ?b0 = "b\<lparr>delivered := delivered b @ [(cb, d)]\<rparr>"
  have 0: "R b ?b0" using frameD(6) [OF f] .
  obtain b1 o1 where s: "call_callback em prog cb d ?b0 = Some (b1, o1)"
    using c by (auto simp: deliver_def split: option.splits)
  have 1: "R ?b0 b1" using call_callback_frame [OF f r al s] .
  have 2: "R b1 (b1\<lparr>logged := Suc (logged b1)\<rparr>)" using frameD(7) [OF f] .
  have 3: "R b b1" using 0 1 frameD(2) [OF f] by blast
  have "b' = b1 \<or> b' = b1\<lparr>logged := Suc (logged b1)\<rparr>"
    using c s by (cases o1) (auto simp: deliver_def)
  then show ?thesis using 2 3 frameD(2) [OF f] by blast
qed

lemma deliver_Returned: "deliver em prog d cb b = Some (b', out) \<Longrightarrow> out = Returned"
  by (auto simp: deliver_def split: option.splits prod.splits outcome.splits)

lemma deliver_all_frame:
  assumes f: "frame R allowed" and r: "results_in R em"
    and al: "\<forall>j. \<forall>act \<in> set (prog j d). allowed act"
  shows "deliver_all em prog d cbs b = Some b' \<Longrightarrow> R b b'"
proof (induction cbs arbitrary: b)
  case Nil
  then show ?case using frameD(1) [OF f] by simp
next
  case (Cons cb cbs)
  obtain b1 o1 where s: "deliver em prog d cb b = Some (b1, o1)"
    using Cons.prems by (auto split: option.splits)
  have "R b b1" using deliver_frame [OF f r al s] .
  moreover have "R b1 b'" using Cons.IH [of b1] Cons.prems s by simp
  ultimately show ?case using frameD(2) [OF f] by blast
qed

lemma Array_forEach_from_frame:
  assumes rf: "\<And>b. R b b" and tr: "\<And>b1 b2 b3. R b1 b2 \<Longrightarrow> R b2 b3 \<Longrightarrow> R b1 b3"
    and st: "\<And>cb b b' out. f cb b = Some (b', out) \<Longrightarrow> R b b'"
  shows "m = len - k \<Longrightarrow> Array_forEach_from f a k len b = Some (b', out) \<Longrightarrow> R b b'"
proof (induction m arbitrary: k b)
  case 0
  then show ?case using rf by (simp add: Array_forEach_from.simps [of f a k len b])
next
  case (Suc m)
  then have k: "k < len" and m: "m = len - (k + 1)" by simp_all
  show ?case
  proof (cases "k < length (array_at b a)")
    case False
    then have "Array_forEach_from f a (k + 1) len b = Some (b', out)"
      using k Suc.prems(2) by (simp add: Array_forEach_from.simps [of f a k len b])
    then show ?thesis using Suc.IH [OF m] by simp
  next
    case True
    show ?thesis
    proof (cases "f (array_at b a ! k) b")
      case None
      then show ?thesis
        using k True Suc.prems(2) by (simp add: Array_forEach_from.simps [of f a k len b])
    next
      case (Some p)
      obtain b1 o1 where p: "p = (b1, o1)" by (cases p)
      have 1: "R b b1" using st [of "array_at b a ! k" b b1 o1] Some p by simp
      show ?thesis
      proof (cases o1)
        case Threw
        then show ?thesis
          using k True Suc.prems(2) Some p 1
          by (simp add: Array_forEach_from.simps [of f a k len b])
      next
        case Returned
        then have "Array_forEach_from f a (k + 1) len b1 = Some (b', out)"
          using k True Suc.prems(2) Some p
          by (simp add: Array_forEach_from.simps [of f a k len b])
        then have "R b1 b'" using Suc.IH [OF m] by simp
        then show ?thesis using 1 tr by blast
      qed
    qed
  qed
qed

lemma emit_frame:
  assumes f: "frame R allowed" and al: "\<forall>j d. \<forall>act \<in> set (prog j d). allowed act"
  shows "results_in R (emit n prog)"
proof (induction n)
  case 0
  then show ?case by (simp add: results_in_def)
next
  case (Suc n)
  show ?case
    unfolding results_in_def
  proof (intro allI impI)
    fix t d b b' out
    assume e: "emit (Suc n) prog t d b = Some (b', out)"
    have al': "\<forall>j. \<forall>act \<in> set (prog j d). allowed act" using al by blast
    have st: "R b1 b2" if "deliver (emit n prog) prog d cb b1 = Some (b2, o2)" for cb b1 b2 o2
      using deliver_frame [of R allowed "emit n prog" prog d cb b1 b2 o2] f Suc.IH al' that
      by simp
    show "R b b'"
    proof (cases "lookup b t")
      case Absent
      then show ?thesis using e frameD(1) [OF f] by simp
    next
      case Inherited
      then show ?thesis using e frameD(1) [OF f] by simp
    next
      case (Array a)
      then have "Array_forEach_from (deliver (emit n prog) prog d) a 0 (length (array_at b a)) b
                   = Some (b', out)"
        using e by (simp add: Array_forEach_def)
      then show ?thesis
        using Array_forEach_from_frame
          [of R "deliver (emit n prog) prog d" "length (array_at b a) - 0"
              "length (array_at b a)" 0 a b b' out]
          frameD(1,2) [OF f] st
        by blast
    qed
  qed
qed

subsection \<open>The heap only grows\<close>

lemma grows_refl: "grows b b"
  by (simp add: grows_def)

lemma grows_trans: "grows b1 b2 \<Longrightarrow> grows b2 b3 \<Longrightarrow> grows b1 b3"
  unfolding grows_def by (meson le_trans less_le_trans prefix_order.trans)

lemma extends_refl: "extends b b"
  by (simp add: extends_def grows_refl)

lemma extends_trans: "extends b1 b2 \<Longrightarrow> extends b2 b3 \<Longrightarrow> extends b1 b3"
  unfolding extends_def using grows_trans by (meson le_trans prefix_order.trans)

lemma extends_push: "extends b (push a cb b)"
  by (auto simp: extends_def grows_def push_def array_at_def nth_list_update)

lemma extends_on: "extends b (fst (on t cb b))"
proof (cases "lookup b t")
  case Absent
  have "extends b (b\<lparr>arrays := arrays b @ [[]], events := (events b)(t \<mapsto> length (arrays b))\<rparr>)"
    by (auto simp: extends_def grows_def nth_append)
  then show ?thesis
    using Absent extends_trans [OF _ extends_push] by (simp add: on_def new_array_def)
next
  case Inherited
  then show ?thesis by (simp add: on_def extends_refl)
next
  case (Array a)
  then show ?thesis by (simp add: on_def extends_push)
qed

lemma extends_off: "extends b (fst (off t cb b))"
  by (cases "lookup b t")
     (auto simp: off_def new_array_def extends_def grows_def nth_append)

lemma extends_once: "extends b (fst (once t i b))"
proof -
  have "extends b (b\<lparr>wrappers := wrappers b @ [(t, i)]\<rparr>)"
    by (simp add: extends_def grows_def)
  then show ?thesis using extends_trans [OF _ extends_on] by (simp add: once_def)
qed

lemma extends_clear: "extends b (clear u b)"
  by (cases u) (auto simp: extends_def grows_def)

lemma frame_extends: "frame extends (\<lambda>act. True)"
proof -
  have 1: "extends b (primitive act b)" for act :: "'a action" and b
    by (cases act)
       (simp_all add: extends_refl extends_on extends_once extends_off extends_clear)
  have 2: "extends b (b\<lparr>invoked := invoked b @ [e]\<rparr>)" for e and b :: "'a EventBus"
    by (simp add: extends_def grows_def)
  have 3: "extends b (b\<lparr>delivered := delivered b @ [e]\<rparr>)" for e and b :: "'a EventBus"
    by (simp add: extends_def grows_def)
  have 4: "extends b (b\<lparr>logged := Suc (logged b)\<rparr>)" for b :: "'a EventBus"
    by (simp add: extends_def grows_def)
  show ?thesis
    unfolding frame_def using 1 2 3 4 extends_refl extends_off extends_trans by blast
qed

lemma emit_extends: "emit n prog t d b = Some (b', out) \<Longrightarrow> extends b b'"
  using emit_frame [OF frame_extends, of prog n] unfolding results_in_def by blast

subsection \<open>Well-formed buses\<close>

lemma well_formed_new: "well_formed EventBus_new"
  by (simp add: well_formed_def EventBus_new_def)

lemma well_formed_alloc:
  assumes "well_formed b" "events b t = None"
  shows "well_formed (b\<lparr>arrays := arrays b @ [xs], events := (events b)(t \<mapsto> length (arrays b))\<rparr>)"
  unfolding well_formed_def
proof (intro conjI allI impI)
  fix u a
  assume "events (b\<lparr>arrays := arrays b @ [xs], events := (events b)(t \<mapsto> length (arrays b))\<rparr>) u
            = Some a"
  then show "a < length (arrays (b\<lparr>arrays := arrays b @ [xs],
                 events := (events b)(t \<mapsto> length (arrays b))\<rparr>))"
    using assms(1) by (auto simp: well_formed_def less_Suc_eq split: if_splits)
next
  fix u u' a
  assume "events (b\<lparr>arrays := arrays b @ [xs], events := (events b)(t \<mapsto> length (arrays b))\<rparr>) u
            = Some a"
    and "events (b\<lparr>arrays := arrays b @ [xs], events := (events b)(t \<mapsto> length (arrays b))\<rparr>) u'
            = Some a"
  then show "u = u'"
    using assms(1) unfolding well_formed_def
    by (auto split: if_splits)
qed

lemma well_formed_realloc:
  assumes "well_formed b" "events b t = Some a0"
  shows "well_formed (b\<lparr>arrays := arrays b @ [xs], events := (events b)(t \<mapsto> length (arrays b))\<rparr>)"
  unfolding well_formed_def
proof (intro conjI allI impI)
  fix u a
  assume "events (b\<lparr>arrays := arrays b @ [xs], events := (events b)(t \<mapsto> length (arrays b))\<rparr>) u
            = Some a"
  then show "a < length (arrays (b\<lparr>arrays := arrays b @ [xs],
                 events := (events b)(t \<mapsto> length (arrays b))\<rparr>))"
    using assms(1) by (auto simp: well_formed_def less_Suc_eq split: if_splits)
next
  fix u u' a
  assume "events (b\<lparr>arrays := arrays b @ [xs], events := (events b)(t \<mapsto> length (arrays b))\<rparr>) u
            = Some a"
    and "events (b\<lparr>arrays := arrays b @ [xs], events := (events b)(t \<mapsto> length (arrays b))\<rparr>) u'
            = Some a"
  then show "u = u'"
    using assms(1) unfolding well_formed_def
    by (auto split: if_splits)
qed

lemma well_formed_arrays_update:
  "well_formed b \<Longrightarrow> well_formed (b\<lparr>arrays := (arrays b)[a := xs]\<rparr>)"
  by (simp add: well_formed_def)

lemma well_formed_push: "well_formed b \<Longrightarrow> well_formed (push a cb b)"
  by (simp add: push_def well_formed_arrays_update)

lemma lookup_Absent: "lookup b t = Absent \<Longrightarrow> events b t = None"
  by (simp add: lookup_def split: option.splits if_splits)

lemma lookup_Array: "lookup b t = Array a \<longleftrightarrow> events b t = Some a"
  by (simp add: lookup_def split: option.splits if_splits)

lemma well_formed_on: "well_formed b \<Longrightarrow> well_formed (fst (on t cb b))"
proof (cases "lookup b t")
  case Absent
  assume w: "well_formed b"
  show ?thesis
    using Absent well_formed_push [OF well_formed_alloc [OF w lookup_Absent [OF Absent], of "[]"]]
    by (simp add: on_def new_array_def)
next
  case Inherited
  assume "well_formed b"
  then show ?thesis using Inherited by (simp add: on_def)
next
  case (Array a)
  assume "well_formed b"
  then show ?thesis using Array by (simp add: on_def well_formed_push)
qed

lemma well_formed_off: "well_formed b \<Longrightarrow> well_formed (fst (off t cb b))"
proof (cases "lookup b t")
  case Absent
  assume "well_formed b"
  then show ?thesis using Absent by (simp add: off_def)
next
  case Inherited
  assume "well_formed b"
  then show ?thesis using Inherited by (simp add: off_def)
next
  case (Array a)
  assume w: "well_formed b"
  have e: "events b t = Some a" using Array by (simp add: lookup_Array)
  show ?thesis
    using Array well_formed_realloc [OF w e] by (simp add: off_def new_array_def)
qed

lemma well_formed_wrappers_update [simp]:
  "well_formed (b\<lparr>wrappers := v\<rparr>) = well_formed b"
  by (simp add: well_formed_def)

lemma well_formed_once: "well_formed b \<Longrightarrow> well_formed (fst (once t i b))"
  by (simp add: once_def well_formed_on)

lemma well_formed_clear: "well_formed b \<Longrightarrow> well_formed (clear u b)"
  by (cases u) (auto simp: well_formed_def split: if_splits)

lemma well_formed_updates [simp]:
  "well_formed (b\<lparr>invoked := v\<rparr>) = well_formed b"
  "well_formed (b\<lparr>delivered := w\<rparr>) = well_formed b"
  "well_formed (b\<lparr>logged := n\<rparr>) = well_formed b"
  by (simp_all add: well_formed_def)

lemma frame_well_formed: "frame (\<lambda>b b'. well_formed b \<longrightarrow> well_formed b') (\<lambda>act. True)"
  unfolding frame_def
proof (intro conjI allI impI)
  fix act :: "'a action" and b :: "'a EventBus"
  assume "well_formed b"
  then show "well_formed (primitive act b)"
    by (cases act)
       (simp_all add: well_formed_on well_formed_once well_formed_off well_formed_clear)
qed (simp_all add: well_formed_off)

lemma emit_well_formed:
  "emit n prog t d b = Some (b', out) \<Longrightarrow> well_formed b \<Longrightarrow> well_formed b'"
  using emit_frame [OF frame_well_formed, of prog n] unfolding results_in_def by blast

subsection \<open>A pass of \<^verbatim>\<open>emit\<close> is a sequential delivery to the snapshot\<close>

lemma deliver_grows:
  assumes "results_in extends em" "deliver em prog d cb b = Some (b', out)"
  shows "grows b b'"
  using deliver_frame [of extends "\<lambda>act. True" em prog d cb b b' out, OF frame_extends] assms
  by (simp add: extends_def)

lemma Array_forEach_from_deliver_all:
  assumes ex: "results_in extends em"
    and a: "a < length (arrays b0)" and len: "len = length (arrays b0 ! a)"
  shows "m = len - k \<Longrightarrow> k \<le> len \<Longrightarrow> grows b0 b \<Longrightarrow>
         Array_forEach_from (deliver em prog d) a k len b =
           map_option (\<lambda>b'. (b', Returned)) (deliver_all em prog d (drop k (arrays b0 ! a)) b)"
proof (induction m arbitrary: k b)
  case 0
  then show ?case using len by (simp add: Array_forEach_from.simps [of _ a k len b])
next
  case (Suc m)
  from Suc.prems have k: "k < len" and m: "m = len - (k + 1)" by simp_all
  from Suc.prems(3) a have ab: "a < length (arrays b)"
    and p: "prefix (arrays b0 ! a) (arrays b ! a)"
    by (auto simp: grows_def)
  from p k len have kb: "k < length (array_at b a)"
    using ab by (auto simp: array_at_def dest: prefix_length_le)
  from p k len have el: "array_at b a ! k = arrays b0 ! a ! k"
    using ab by (auto simp: array_at_def prefix_def nth_append)
  have dr: "drop k (arrays b0 ! a) = (arrays b0 ! a ! k) # drop (k + 1) (arrays b0 ! a)"
    using k len by (simp add: Cons_nth_drop_Suc)
  show ?case
  proof (cases "deliver em prog d (arrays b0 ! a ! k) b")
    case None
    then show ?thesis
      using k kb el dr by (simp add: Array_forEach_from.simps [of _ a k len b])
  next
    case (Some r)
    obtain b1 o1 where r: "r = (b1, o1)" by (cases r)
    have o1: "o1 = Returned"
      using deliver_Returned [of em prog d "arrays b0 ! a ! k" b b1 o1] Some r by simp
    have g: "grows b0 b1"
      using grows_trans [OF Suc.prems(3) deliver_grows [OF ex, of prog d "arrays b0 ! a ! k" b b1 o1]]
        Some r by simp
    have step: "Array_forEach_from (deliver em prog d) a k len b =
                Array_forEach_from (deliver em prog d) a (k + 1) len b1"
      using k kb el Some r o1 by (simp add: Array_forEach_from.simps [of _ a k len b])
    have "Array_forEach_from (deliver em prog d) a (k + 1) len b1 =
            map_option (\<lambda>b'. (b', Returned))
              (deliver_all em prog d (drop (k + 1) (arrays b0 ! a)) b1)"
      using Suc.IH [OF m _ g] k by simp
    then show ?thesis using step dr Some r by simp
  qed
qed

lemma emit_deliver_all:
  assumes "lookup b t \<noteq> Inherited"
  shows "emit (Suc n) prog t d b =
           map_option (\<lambda>b'. (b', Returned)) (deliver_all (emit n prog) prog d (listeners b t) b)"
proof (cases "lookup b t")
  case Absent
  then show ?thesis by (simp add: listeners_def)
next
  case Inherited
  then show ?thesis using assms by simp
next
  case (Array a)
  have ex: "results_in extends (emit n prog)"
    unfolding results_in_def by (intro allI impI) (erule emit_extends)
  show ?thesis
  proof (cases "a < length (arrays b)")
    case True
    then show ?thesis
      using Array
        Array_forEach_from_deliver_all
          [OF ex True refl, of "length (arrays b ! a) - 0" 0 b prog d]
      by (simp add: listeners_def Array_forEach_def array_at_def grows_refl)
  next
    case False
    then show ?thesis using Array
      by (simp add: listeners_def Array_forEach_def array_at_def
          Array_forEach_from.simps [of _ a 0 0 b])
  qed
qed

lemma emit_Inherited: "lookup b t = Inherited \<Longrightarrow> emit (Suc n) prog t d b = Some (b, Threw)"
  by simp

lemma emit_outcome:
  "lookup b t \<noteq> Inherited \<Longrightarrow> emit n prog t d b = Some (b', out) \<Longrightarrow> out = Returned"
  by (cases n) (auto simp: emit_deliver_all simp del: emit.simps(2))

subsection \<open>What a pass leaves in the observations\<close>

lemma call_callback_extends:
  assumes "results_in extends em" "call_callback em prog cb d b = Some (b', out)"
  shows "extends b b'"
  using call_callback_frame [of extends "\<lambda>act. True" em prog d cb b b' out, OF frame_extends]
    assms
  by simp

lemma deliver_extends:
  assumes "results_in extends em" "deliver em prog d cb b = Some (b', out)"
  shows "extends b b'"
  using deliver_frame [of extends "\<lambda>act. True" em prog d cb b b' out, OF frame_extends] assms
  by simp

lemma deliver_all_extends:
  assumes "results_in extends em" "deliver_all em prog d cbs b = Some b'"
  shows "extends b b'"
  using deliver_all_frame [of extends "\<lambda>act. True" em prog d cbs b b', OF frame_extends] assms
  by simp

lemma deliver_delivered:
  assumes ex: "results_in extends em" and c: "deliver em prog d cb b = Some (b', out)"
  shows "prefix (delivered b @ [(cb, d)]) (delivered b')"
proof -
  let ?b0 = "b\<lparr>delivered := delivered b @ [(cb, d)]\<rparr>"
  obtain b1 o1 where s: "call_callback em prog cb d ?b0 = Some (b1, o1)"
    using c by (auto simp: deliver_def split: option.splits)
  have "prefix (delivered ?b0) (delivered b1)"
    using call_callback_extends [OF ex s] by (simp add: extends_def)
  moreover have "delivered b' = delivered b1"
    using c s by (cases o1) (auto simp: deliver_def)
  ultimately show ?thesis by simp
qed

lemma deliver_all_delivered:
  assumes ex: "results_in extends em"
  shows "deliver_all em prog d cbs b = Some b' \<Longrightarrow>
         \<exists>rest. delivered b' = delivered b @ rest \<and> subseq (map (\<lambda>cb. (cb, d)) cbs) rest"
proof (induction cbs arbitrary: b)
  case Nil
  then show ?case by simp
next
  case (Cons cb cbs)
  obtain b1 o1 where s: "deliver em prog d cb b = Some (b1, o1)"
    using Cons.prems by (auto split: option.splits)
  obtain r1 where r1: "delivered b1 = delivered b @ (cb, d) # r1"
    using deliver_delivered [OF ex s] by (auto simp: prefix_def)
  obtain r2 where r2: "delivered b' = delivered b1 @ r2"
    and sub: "subseq (map (\<lambda>cb. (cb, d)) cbs) r2"
    using Cons.IH [of b1] Cons.prems s by auto
  have "subseq (map (\<lambda>cb. (cb, d)) cbs) (r1 @ r2)"
    using sub by (rule subseq_drop_many)
  then have "subseq (map (\<lambda>cb. (cb, d)) (cb # cbs)) ((cb, d) # r1 @ r2)" by simp
  then show ?case using r1 r2 by simp
qed

lemma deliver_user_invoked:
  assumes ex: "results_in extends em" and c: "deliver em prog d (User i) b = Some (b', out)"
  shows "prefix (invoked b @ [(i, d)]) (invoked b')"
proof -
  let ?b1 = "b\<lparr>delivered := delivered b @ [(User i, d)], invoked := invoked b @ [(i, d)]\<rparr>"
  obtain b2 o2 where s: "run_actions em (prog i d) ?b1 = Some (b2, o2)"
    using c by (auto simp: deliver_def call_callback_def call_user_def split: option.splits)
  have "extends ?b1 b2"
    using run_actions_frame [of extends "\<lambda>act. True" em "prog i d" ?b1 b2 o2, OF frame_extends]
      ex s by simp
  then have "prefix (invoked ?b1) (invoked b2)" by (simp add: extends_def)
  moreover have "invoked b' = invoked b2"
    using c s by (cases o2) (auto simp: deliver_def call_callback_def call_user_def)
  ultimately show ?thesis by simp
qed

lemma deliver_all_invoked:
  assumes ex: "results_in extends em"
  shows "deliver_all em prog d cbs b = Some b' \<Longrightarrow> User i \<in> set cbs \<Longrightarrow>
         (i, d) \<in> set (drop (length (invoked b)) (invoked b'))"
proof (induction cbs arbitrary: b)
  case Nil
  then show ?case by simp
next
  case (Cons cb cbs)
  obtain b1 o1 where s: "deliver em prog d cb b = Some (b1, o1)"
    using Cons.prems by (auto split: option.splits)
  have rest: "deliver_all em prog d cbs b1 = Some b'" using Cons.prems s by simp
  obtain r1 where r1: "invoked b1 = invoked b @ r1"
    using deliver_extends [OF ex s] by (auto simp: extends_def prefix_def)
  obtain r2 where r2: "invoked b' = invoked b1 @ r2"
    using deliver_all_extends [OF ex rest] by (auto simp: extends_def prefix_def)
  show ?case
  proof (cases "cb = User i")
    case True
    then obtain r1' where "invoked b1 = invoked b @ (i, d) # r1'"
      using deliver_user_invoked [OF ex, of prog d i b b1 o1] s by (auto simp: prefix_def)
    then show ?thesis using r2 by simp
  next
    case False
    then have "(i, d) \<in> set (drop (length (invoked b1)) (invoked b'))"
      using Cons.IH [OF rest] Cons.prems(2) by simp
    then show ?thesis using r1 r2 by simp
  qed
qed

lemma deliver_catches:
  "call_callback em prog cb d (b\<lparr>delivered := delivered b @ [(cb, d)]\<rparr>) = Some (b', Threw)
     \<Longrightarrow> deliver em prog d cb b = Some (b'\<lparr>logged := Suc (logged b')\<rparr>, Returned)"
  by (simp add: deliver_def)

subsection \<open>Listeners that do not publish: the pass returns\<close>

lemma delivered_push: "delivered (push a cb b) = delivered b"
  by (simp add: push_def)

lemma delivered_on: "delivered (fst (on t cb b)) = delivered b"
  by (cases "lookup b t") (simp_all add: on_def push_def new_array_def)

lemma delivered_off: "delivered (fst (off t cb b)) = delivered b"
  by (cases "lookup b t") (simp_all add: off_def new_array_def)

lemma delivered_once: "delivered (fst (once t i b)) = delivered b"
  by (simp add: once_def delivered_on)

lemma delivered_clear: "delivered (clear u b) = delivered b"
  by (cases u) auto

lemma run_actions_no_publish:
  "\<forall>act \<in> set acts. \<not> publishes act \<Longrightarrow>
     \<exists>b' out. run_actions em acts b = Some (b', out) \<and> delivered b' = delivered b"
proof (induction acts arbitrary: b)
  case Nil
  then show ?case by simp
next
  case (Cons act acts)
  then have ih: "\<exists>b' out. run_actions em acts b1 = Some (b', out) \<and> delivered b' = delivered b1"
    for b1 by simp
  show ?case
  proof (cases act)
    case Throw
    then show ?thesis by simp
  next
    case (On t cb)
    obtain b1 o1 where s: "on t cb b = (b1, o1)" by (cases "on t cb b")
    then have "delivered b1 = delivered b" using delivered_on [of t cb b] by simp
    then show ?thesis using On s ih [of b1] by (cases o1) auto
  next
    case (Once t i)
    obtain b1 o1 where s: "once t i b = (b1, o1)" by (cases "once t i b")
    then have "delivered b1 = delivered b" using delivered_once [of t i b] by simp
    then show ?thesis using Once s ih [of b1] by (cases o1) auto
  next
    case (Off t cb)
    obtain b1 o1 where s: "off t cb b = (b1, o1)" by (cases "off t cb b")
    then have "delivered b1 = delivered b" using delivered_off [of t cb b] by simp
    then show ?thesis using Off s ih [of b1] by (cases o1) auto
  next
    case (Clear u)
    then show ?thesis using ih [of "clear u b"] by (auto simp: delivered_clear)
  next
    case (Emit t d)
    then show ?thesis using Cons.prems by simp
  qed
qed

lemma call_callback_no_publish:
  assumes "\<forall>j. \<forall>act \<in> set (prog j d). \<not> publishes act"
  shows "\<exists>b' out. call_callback em prog cb d b = Some (b', out) \<and> delivered b' = delivered b"
proof (cases cb)
  case (User i)
  then show ?thesis
    using run_actions_no_publish [of "prog i d" em "b\<lparr>invoked := invoked b @ [(i, d)]\<rparr>"] assms
    by (simp add: call_callback_def call_user_def)
next
  case (Wrapper n)
  show ?thesis
  proof (cases "n < length (wrappers b)")
    case False
    then show ?thesis using Wrapper by (simp add: call_callback_def)
  next
    case True
    obtain t i where w: "wrappers b ! n = (t, i)" by (cases "wrappers b ! n")
    obtain b1 o1 where s: "call_user em prog i d b = Some (b1, o1)" and e: "delivered b1 = delivered b"
      using run_actions_no_publish [of "prog i d" em "b\<lparr>invoked := invoked b @ [(i, d)]\<rparr>"] assms
      by (auto simp: call_user_def)
    obtain b2 o2 where o: "off t (Wrapper n) b1 = (b2, o2)" by (cases "off t (Wrapper n) b1")
    then have "delivered b2 = delivered b1" using delivered_off [of t "Wrapper n" b1] by simp
    then show ?thesis
      using Wrapper True w s e o by (cases o1) (simp_all add: call_callback_def)
  qed
qed

lemma deliver_no_publish:
  assumes "\<forall>j. \<forall>act \<in> set (prog j d). \<not> publishes act"
  shows "\<exists>b'. deliver em prog d cb b = Some (b', Returned) \<and>
              delivered b' = delivered b @ [(cb, d)]"
proof -
  obtain b1 o1 where
    s: "call_callback em prog cb d (b\<lparr>delivered := delivered b @ [(cb, d)]\<rparr>) = Some (b1, o1)"
    and e: "delivered b1 = delivered b @ [(cb, d)]"
    using call_callback_no_publish [of prog d em cb "b\<lparr>delivered := delivered b @ [(cb, d)]\<rparr>"]
      assms
    by auto
  show ?thesis using s e by (cases o1) (simp_all add: deliver_def)
qed

lemma deliver_all_no_publish:
  assumes "\<forall>j. \<forall>act \<in> set (prog j d). \<not> publishes act"
  shows "\<exists>b'. deliver_all em prog d cbs b = Some b' \<and>
              delivered b' = delivered b @ map (\<lambda>cb. (cb, d)) cbs"
proof (induction cbs arbitrary: b)
  case Nil
  then show ?case by simp
next
  case (Cons cb cbs)
  obtain b1 where s: "deliver em prog d cb b = Some (b1, Returned)"
    and e: "delivered b1 = delivered b @ [(cb, d)]"
    using deliver_no_publish [of prog d em cb b] assms by auto
  obtain b' where "deliver_all em prog d cbs b1 = Some b'"
    and "delivered b' = delivered b1 @ map (\<lambda>cb. (cb, d)) cbs"
    using Cons.IH [of b1] by auto
  then show ?case using s e by simp
qed

subsection \<open>The pass returns when the nested passes do\<close>

lemma run_actions_total:
  assumes "\<And>t d b. em t d b \<noteq> None"
  shows "run_actions em acts b \<noteq> None"
proof (induction acts arbitrary: b)
  case Nil
  then show ?case by simp
next
  case (Cons act acts)
  have ih: "\<exists>r. run_actions em acts b1 = Some r" for b1
    using Cons.IH [of b1] by auto
  show ?case
  proof (cases act)
    case (Emit t d)
    obtain b1 o1 where "em t d b = Some (b1, o1)" using assms [of t d b] by (cases "em t d b") auto
    then show ?thesis using Emit Cons.IH [of b1] by (cases o1) simp_all
  next
    case Throw
    then show ?thesis by simp
  next
    case (On t cb)
    obtain b1 o1 where "on t cb b = (b1, o1)" by (cases "on t cb b")
    then show ?thesis using On Cons.IH [of b1] by (cases o1) simp_all
  next
    case (Once t i)
    obtain b1 o1 where "once t i b = (b1, o1)" by (cases "once t i b")
    then show ?thesis using Once Cons.IH [of b1] by (cases o1) simp_all
  next
    case (Off t cb)
    obtain b1 o1 where "off t cb b = (b1, o1)" by (cases "off t cb b")
    then show ?thesis using Off Cons.IH [of b1] by (cases o1) simp_all
  next
    case (Clear u)
    then show ?thesis using Cons.IH [of "clear u b"] by simp
  qed
qed

lemma call_callback_total:
  assumes "\<And>t d b. em t d b \<noteq> None"
  shows "call_callback em prog cb d b \<noteq> None"
proof (cases cb)
  case (User i)
  then show ?thesis using run_actions_total [of em, OF assms]
    by (simp add: call_callback_def call_user_def)
next
  case (Wrapper n)
  show ?thesis
  proof (cases "n < length (wrappers b)")
    case False
    then show ?thesis using Wrapper by (simp add: call_callback_def)
  next
    case True
    obtain t i where w: "wrappers b ! n = (t, i)" by (cases "wrappers b ! n")
    obtain b1 o1 where "call_user em prog i d b = Some (b1, o1)"
      using run_actions_total [of em "prog i d" "b\<lparr>invoked := invoked b @ [(i, d)]\<rparr>", OF assms]
      by (auto simp: call_user_def)
    then show ?thesis using Wrapper True w by (cases o1) (simp_all add: call_callback_def)
  qed
qed

lemma deliver_all_total:
  assumes "\<And>t d b. em t d b \<noteq> None"
  shows "deliver_all em prog d cbs b \<noteq> None"
proof (induction cbs arbitrary: b)
  case Nil
  then show ?case by simp
next
  case (Cons cb cbs)
  obtain b1 o1 where
    "call_callback em prog cb d (b\<lparr>delivered := delivered b @ [(cb, d)]\<rparr>) = Some (b1, o1)"
    using call_callback_total [of em prog cb d, OF assms] by fastforce
  then obtain b2 o2 where "deliver em prog d cb b = Some (b2, o2)"
    by (cases o1) (simp_all add: deliver_def)
  then show ?case using Cons.IH [of b2] by simp
qed

lemma emit_total:
  assumes "\<And>u d' b1. emit n prog u d' b1 \<noteq> None"
  shows "emit (Suc n) prog t d b \<noteq> None"
proof (cases "lookup b t = Inherited")
  case True
  then show ?thesis by simp
next
  case False
  show ?thesis
    using deliver_all_total [of "emit n prog" prog d "listeners b t" b, OF assms]
    unfolding emit_deliver_all [OF False] by simp
qed

subsection \<open>A deeper bound does not change a result\<close>

lemma run_actions_mono:
  assumes le: "\<And>t d b r. em t d b = Some r \<Longrightarrow> em' t d b = Some r"
  shows "run_actions em acts b = Some r \<Longrightarrow> run_actions em' acts b = Some r"
proof (induction acts arbitrary: b)
  case Nil
  then show ?case by simp
next
  case (Cons act acts)
  show ?case
  proof (cases act)
    case Throw
    then show ?thesis using Cons.prems by simp
  next
    case (On t cb)
    then show ?thesis using Cons.prems Cons.IH
      by (auto split: prod.splits outcome.splits)
  next
    case (Once t i)
    then show ?thesis using Cons.prems Cons.IH
      by (auto split: prod.splits outcome.splits)
  next
    case (Off t cb)
    then show ?thesis using Cons.prems Cons.IH
      by (auto split: prod.splits outcome.splits)
  next
    case (Clear u)
    then show ?thesis using Cons.prems Cons.IH by simp
  next
    case (Emit t d)
    show ?thesis
    proof (cases "em t d b")
      case None
      then show ?thesis using Cons.prems Emit by simp
    next
      case (Some p)
      obtain b1 o1 where p: "p = (b1, o1)" by (cases p)
      have e': "em' t d b = Some (b1, o1)" using le Some p by simp
      show ?thesis
      proof (cases o1)
        case Threw
        then have "r = (b1, Threw)" using Cons.prems Emit Some p by simp
        then show ?thesis using e' Emit Threw by simp
      next
        case Returned
        then have "run_actions em acts b1 = Some r" using Cons.prems Emit Some p by simp
        then have "run_actions em' acts b1 = Some r" by (rule Cons.IH)
        then show ?thesis using e' Emit Returned by simp
      qed
    qed
  qed
qed

lemma call_callback_mono:
  assumes le: "\<And>t d b r. em t d b = Some r \<Longrightarrow> em' t d b = Some r"
    and c: "call_callback em prog cb d b = Some r"
  shows "call_callback em' prog cb d b = Some r"
proof (cases cb)
  case (User i)
  then show ?thesis using run_actions_mono [of em em', OF le] c
    by (simp add: call_callback_def call_user_def)
next
  case (Wrapper n)
  show ?thesis
  proof (cases "n < length (wrappers b)")
    case False
    then show ?thesis using Wrapper c by (simp add: call_callback_def)
  next
    case True
    obtain t i where w: "wrappers b ! n = (t, i)" by (cases "wrappers b ! n")
    obtain p where s: "call_user em prog i d b = Some p"
      using Wrapper True w c by (auto simp: call_callback_def split: option.splits)
    then have "call_user em' prog i d b = Some p"
      using run_actions_mono [of em em', OF le] by (simp add: call_user_def)
    then show ?thesis using Wrapper True w c s by (simp add: call_callback_def)
  qed
qed

lemma deliver_mono:
  assumes le: "\<And>t d b r. em t d b = Some r \<Longrightarrow> em' t d b = Some r"
    and c: "deliver em prog d cb b = Some r"
  shows "deliver em' prog d cb b = Some r"
proof -
  obtain p where s: "call_callback em prog cb d (b\<lparr>delivered := delivered b @ [(cb, d)]\<rparr>) = Some p"
    using c by (auto simp: deliver_def split: option.splits)
  then have "call_callback em' prog cb d (b\<lparr>delivered := delivered b @ [(cb, d)]\<rparr>) = Some p"
    using call_callback_mono [of em em', OF le] by simp
  then show ?thesis using c s by (simp add: deliver_def)
qed

lemma Array_forEach_from_mono:
  assumes le: "\<And>cb b r. f cb b = Some r \<Longrightarrow> f' cb b = Some r"
  shows "m = len - k \<Longrightarrow> Array_forEach_from f a k len b = Some r
           \<Longrightarrow> Array_forEach_from f' a k len b = Some r"
proof (induction m arbitrary: k b)
  case 0
  then show ?case
    by (simp add: Array_forEach_from.simps [of f a k len b]
        Array_forEach_from.simps [of f' a k len b])
next
  case (Suc m)
  then have k: "k < len" and m: "m = len - (k + 1)" by simp_all
  show ?case
  proof (cases "k < length (array_at b a)")
    case False
    then have "Array_forEach_from f a (k + 1) len b = Some r"
      using k Suc.prems(2) by (simp add: Array_forEach_from.simps [of f a k len b])
    then have "Array_forEach_from f' a (k + 1) len b = Some r"
      by (rule Suc.IH [OF m])
    then show ?thesis
      using k False by (simp add: Array_forEach_from.simps [of f' a k len b])
  next
    case True
    show ?thesis
    proof (cases "f (array_at b a ! k) b")
      case None
      then show ?thesis
        using k True Suc.prems(2) by (simp add: Array_forEach_from.simps [of f a k len b])
    next
      case (Some p)
      obtain b1 o1 where p: "p = (b1, o1)" by (cases p)
      have f': "f' (array_at b a ! k) b = Some (b1, o1)" using le Some p by simp
      show ?thesis
      proof (cases o1)
        case Threw
        then have "r = (b1, Threw)"
          using k True Suc.prems(2) Some p
          by (simp add: Array_forEach_from.simps [of f a k len b])
        then show ?thesis
          using k True f' Threw by (simp add: Array_forEach_from.simps [of f' a k len b])
      next
        case Returned
        then have "Array_forEach_from f a (k + 1) len b1 = Some r"
          using k True Suc.prems(2) Some p
          by (simp add: Array_forEach_from.simps [of f a k len b])
        then have "Array_forEach_from f' a (k + 1) len b1 = Some r"
          by (rule Suc.IH [OF m])
        then show ?thesis
          using k True f' Returned by (simp add: Array_forEach_from.simps [of f' a k len b])
      qed
    qed
  qed
qed

lemma emit_mono: "emit n prog t d b = Some r \<Longrightarrow> emit (Suc n) prog t d b = Some r"
proof (induction n arbitrary: t d b r)
  case 0
  then show ?case by simp
next
  case (Suc n)
  have le: "deliver (emit n prog) prog d cb b1 = Some r1
              \<Longrightarrow> deliver (emit (Suc n) prog) prog d cb b1 = Some r1" for cb b1 r1
    using deliver_mono [of "emit n prog" "emit (Suc n) prog" prog d cb b1 r1] Suc.IH by blast
  show ?case
  proof (cases "lookup b t")
    case (Array a)
    then have "Array_forEach_from (deliver (emit n prog) prog d) a 0 (length (array_at b a)) b
                 = Some r"
      using Suc.prems by (simp add: Array_forEach_def)
    then have "Array_forEach_from (deliver (emit (Suc n) prog) prog d) a 0
                 (length (array_at b a)) b = Some r"
      using Array_forEach_from_mono
        [of "deliver (emit n prog) prog d" "deliver (emit (Suc n) prog) prog d"
            "length (array_at b a) - 0" "length (array_at b a)" 0 a b r] le
      by blast
    then show ?thesis using Array by (simp add: Array_forEach_def)
  next
    case Absent
    then show ?thesis using Suc.prems by simp
  next
    case Inherited
    then show ?thesis using Suc.prems by simp
  qed
qed

subsection \<open>Fault isolation\<close>

lemma listeners_lookup: "listeners b t \<noteq> [] \<Longrightarrow> lookup b t \<noteq> Inherited"
  by (auto simp: listeners_def)

text \<open>
  C1. Take a topic whose entry is not an inherited property: every topic that has
  listeners is such a topic (\<open>listeners_lookup\<close>). A call of \<^verbatim>\<open>emit\<close> on it is the
  sequential delivery to the listeners that were subscribed when the call began, once
  for each subscription and in subscription order, each call wrapped in the
  \<^verbatim>\<open>try\<close>/\<^verbatim>\<open>catch\<close> that logs a fault and returns normally. Hence, whenever the call
  has a result it has returned normally, whatever the listeners did; every one of those
  listeners was called, in order, and the body of every application function among them
  was entered. When no listener publishes, the call does have a result, and the calls it
  made are exactly those listeners; in general it has a result as soon as the nested
  calls of \<^verbatim>\<open>emit\<close> have one. A result does not depend on the bound that is left.
\<close>

theorem emit_isolates_listener_faults:
  assumes "lookup b t \<noteq> Inherited"
  shows
    "emit (Suc n) prog t d b
       = map_option (\<lambda>b'. (b', Returned))
           (deliver_all (emit n prog) prog d (listeners b t) b) \<and>
     (\<forall>b' out. emit (Suc n) prog t d b = Some (b', out) \<longrightarrow>
        out = Returned \<and>
        (\<exists>rest. delivered b' = delivered b @ rest \<and>
                subseq (map (\<lambda>cb. (cb, d)) (listeners b t)) rest) \<and>
        (\<forall>i. User i \<in> set (listeners b t) \<longrightarrow>
             (i, d) \<in> set (drop (length (invoked b)) (invoked b')))) \<and>
     (\<forall>cb b1 b2.
        call_callback (emit n prog) prog cb d (b1\<lparr>delivered := delivered b1 @ [(cb, d)]\<rparr>)
          = Some (b2, Threw) \<longrightarrow>
        deliver (emit n prog) prog d cb b1 = Some (b2\<lparr>logged := Suc (logged b2)\<rparr>, Returned)) \<and>
     ((\<forall>i. \<forall>act \<in> set (prog i d). \<not> publishes act) \<longrightarrow>
        (\<exists>b'. emit (Suc n) prog t d b = Some (b', Returned) \<and>
              delivered b' = delivered b @ map (\<lambda>cb. (cb, d)) (listeners b t))) \<and>
     ((\<forall>u d' b1. emit n prog u d' b1 \<noteq> None) \<longrightarrow>
        (\<exists>b'. emit (Suc n) prog t d b = Some (b', Returned))) \<and>
     (\<forall>r. emit (Suc n) prog t d b = Some r \<longrightarrow> emit (Suc (Suc n)) prog t d b = Some r)"
proof -
  have ex: "results_in extends (emit n prog)"
    unfolding results_in_def by (intro allI impI) (erule emit_extends)
  note eq = emit_deliver_all [OF assms, of n prog d]
  have 2: "out = Returned \<and>
        (\<exists>rest. delivered b' = delivered b @ rest \<and>
                subseq (map (\<lambda>cb. (cb, d)) (listeners b t)) rest) \<and>
        (\<forall>i. User i \<in> set (listeners b t) \<longrightarrow>
             (i, d) \<in> set (drop (length (invoked b)) (invoked b')))"
    if e: "emit (Suc n) prog t d b = Some (b', out)" for b' out
  proof -
    have da: "deliver_all (emit n prog) prog d (listeners b t) b = Some b'" and o: "out = Returned"
      using e unfolding eq by auto
    show ?thesis
      using o deliver_all_delivered [OF ex da] deliver_all_invoked [OF ex da] by blast
  qed
  have 4: "\<exists>b'. emit (Suc n) prog t d b = Some (b', Returned) \<and>
              delivered b' = delivered b @ map (\<lambda>cb. (cb, d)) (listeners b t)"
    if np: "\<forall>i. \<forall>act \<in> set (prog i d). \<not> publishes act"
    using deliver_all_no_publish [of prog d "emit n prog" "listeners b t" b] np
    unfolding eq by auto
  have 5: "emit (Suc (Suc n)) prog t d b = Some r" if "emit (Suc n) prog t d b = Some r" for r
    using that by (rule emit_mono)
  have 6: "\<exists>b'. emit (Suc n) prog t d b = Some (b', Returned)"
    if "\<forall>u d' b1. emit n prog u d' b1 \<noteq> None"
  proof -
    have "emit (Suc n) prog t d b \<noteq> None"
      using emit_total [of n prog t d b] that by blast
    then obtain b' out where e: "emit (Suc n) prog t d b = Some (b', out)"
      by (cases "emit (Suc n) prog t d b") (auto simp del: emit.simps)
    show ?thesis using e 2 [OF e] by (simp del: emit.simps)
  qed
  show ?thesis
    using eq 2 4 5 6 deliver_catches [of "emit n prog" prog _ d] by blast
qed


text \<open>
  The theorem on three listeners, the second raising a fault: all three are called, one
  fault is logged. When the first listener publishes on a second topic, a bound of one
  \<^verbatim>\<open>emit\<close> is not enough; with two, the listener of the second topic is called inside
  the first call, and the pass goes on as before.
\<close>

theorem emit_isolates_listener_faults_witness:
  "(\<exists>b'. emit 1 middle_faults ''t'' () three_listeners = Some (b', Returned) \<and>
         delivered b' = [(User 0, ()), (User 1, ()), (User 2, ())] \<and>
         invoked b' = [(0, ()), (1, ()), (2, ())] \<and> logged b' = 1) \<and>
   emit 1 first_publishes ''t'' () four_listeners = None \<and>
   (\<exists>b'. emit 2 first_publishes ''t'' () four_listeners = Some (b', Returned) \<and>
         delivered b' = [(User 0, ()), (User 3, ()), (User 1, ()), (User 2, ())] \<and>
         logged b' = 1)"
proof -
  have l: "lookup three_listeners ''t'' \<noteq> Inherited" "lookup four_listeners ''t'' \<noteq> Inherited"
    by code_simp+
  have s: "listeners three_listeners ''t'' = [User 0, User 1, User 2]"
    "delivered three_listeners = []"
    by code_simp+
  have n: "\<forall>i. \<forall>act \<in> set (middle_faults i ()). \<not> publishes act"
    by (simp add: middle_faults_def)
  have "\<exists>b'. emit (Suc 0) middle_faults ''t'' () three_listeners = Some (b', Returned) \<and>
          delivered b' = delivered three_listeners
                           @ map (\<lambda>cb. (cb, ())) (listeners three_listeners ''t'')"
    using emit_isolates_listener_faults [OF l(1), of 0 middle_faults "()"] n by blast
  then obtain b' where e: "emit (Suc 0) middle_faults ''t'' () three_listeners = Some (b', Returned)"
    and d: "delivered b' = [(User 0, ()), (User 1, ()), (User 2, ())]"
    using s by auto
  have i: "map_option (\<lambda>r. (invoked (fst r), logged (fst r)))
             (emit (Suc 0) middle_faults ''t'' () three_listeners)
           = Some ([(0, ()), (1, ()), (2, ())], 1)"
    by code_simp
  have 1: "\<exists>b'. emit 1 middle_faults ''t'' () three_listeners = Some (b', Returned) \<and>
         delivered b' = [(User 0, ()), (User 1, ()), (User 2, ())] \<and>
         invoked b' = [(0, ()), (1, ()), (2, ())] \<and> logged b' = 1"
    using e d i by (auto simp del: emit.simps)
  have 2: "emit 1 first_publishes ''t'' () four_listeners = None"
    by code_simp
  have r: "map_option (\<lambda>r. (snd r, delivered (fst r), logged (fst r)))
             (emit (Suc (Suc 0)) first_publishes ''t'' () four_listeners)
           = Some (Returned, [(User 0, ()), (User 3, ()), (User 1, ()), (User 2, ())], 1)"
    by code_simp
  have 3: "\<exists>b'. emit 2 first_publishes ''t'' () four_listeners = Some (b', Returned) \<and>
         delivered b' = [(User 0, ()), (User 3, ()), (User 1, ()), (User 2, ())] \<and>
         logged b' = 1"
    using r by (auto simp: numeral_2_eq_2 simp del: emit.simps)
  show ?thesis using 1 2 3 by blast
qed

text \<open>
  What the hypothesis on the name excludes: for a name that plain objects inherit and
  that has no listeners, \<^verbatim>\<open>emit\<close>, \<^verbatim>\<open>on\<close> and \<^verbatim>\<open>off\<close> raise a fault to their caller.
\<close>

lemma inherited_names_raise:
  "emit (Suc n) prog ''toString'' d EventBus_new = Some (EventBus_new, Threw)"
  "on ''toString'' cb EventBus_new = (EventBus_new, Threw)"
  "off ''constructor'' cb EventBus_new = (EventBus_new, Threw)"
  "once ''__proto__'' i EventBus_new = (EventBus_new\<lparr>wrappers := [(''__proto__'', i)]\<rparr>, Threw)"
  by (simp_all add: on_def off_def once_def lookup_def EventBus_new_def Object_prototype_def)

subsection \<open>Unsubscribing\<close>

lemma listeners_updates [simp]:
  "listeners (b\<lparr>invoked := v\<rparr>) t = listeners b t"
  "listeners (b\<lparr>delivered := w\<rparr>) t = listeners b t"
  "listeners (b\<lparr>logged := n\<rparr>) t = listeners b t"
  "listeners (b\<lparr>wrappers := ws\<rparr>) t = listeners b t"
  by (simp_all add: listeners_def lookup_def array_at_def split: option.splits)

lemma known_updates [simp]:
  "known (b\<lparr>invoked := v\<rparr>) cb = known b cb"
  "known (b\<lparr>delivered := w\<rparr>) cb = known b cb"
  "known (b\<lparr>logged := n\<rparr>) cb = known b cb"
  by (cases cb; simp)+

lemma known_extends: "extends b b' \<Longrightarrow> known b cb \<Longrightarrow> known b' cb"
  by (cases cb) (auto simp: extends_def dest: prefix_length_le)

lemma off_keeps_arrays:
  "a < length (arrays b) \<Longrightarrow> array_at (fst (off t cb b)) a = array_at b a"
  by (cases "lookup b t") (auto simp: off_def new_array_def array_at_def nth_append)

lemma listeners_off_same:
  "listeners (fst (off t cb b)) t = filter (\<lambda>c. c \<noteq> cb) (listeners b t)"
  by (cases "lookup b t")
     (auto simp: listeners_def off_def new_array_def array_at_def lookup_def)

lemma well_formedD:
  assumes "well_formed b"
  shows "events b t = Some a \<Longrightarrow> a < length (arrays b)"
    and "events b t = Some a \<Longrightarrow> events b t' = Some a \<Longrightarrow> t = t'"
  using assms unfolding well_formed_def by blast+

lemma listeners_alloc_other:
  assumes "well_formed b" "t' \<noteq> t"
  shows "listeners (b\<lparr>arrays := arrays b @ [xs], events := (events b)(t' \<mapsto> length (arrays b))\<rparr>) t
           = listeners b t"
proof (cases "events b t")
  case None
  then show ?thesis using assms(2) by (simp add: listeners_def lookup_def)
next
  case (Some a)
  then have "a < length (arrays b)" using well_formedD(1) [OF assms(1)] by blast
  then show ?thesis using Some assms(2)
    by (simp add: listeners_def lookup_def array_at_def nth_append)
qed

lemma listeners_off_other:
  assumes "well_formed b" "t' \<noteq> t"
  shows "listeners (fst (off t' cb b)) t = listeners b t"
proof (cases "lookup b t'")
  case (Array a)
  then show ?thesis
    using listeners_alloc_other [OF assms] by (simp add: off_def new_array_def)
qed (simp_all add: off_def)

lemma listeners_off_subset:
  "well_formed b \<Longrightarrow> set (listeners (fst (off t' c b)) t) \<subseteq> set (listeners b t)"
  by (cases "t' = t") (auto simp: listeners_off_same listeners_off_other)

lemma listeners_push:
  assumes "well_formed b"
  shows "set (listeners (push a c b) t)
           \<subseteq> set (listeners b t) \<union> (if events b t = Some a then {c} else {})"
proof (cases "events b t")
  case None
  then show ?thesis by (simp add: listeners_def lookup_def push_def)
next
  case (Some a')
  then have a': "a' < length (arrays b)" using well_formedD(1) [OF assms] by blast
  show ?thesis
  proof (cases "a' = a")
    case True
    then show ?thesis using Some a'
      by (simp add: listeners_def lookup_def push_def array_at_def)
  next
    case False
    then show ?thesis using Some a'
      by (simp add: listeners_def lookup_def push_def array_at_def)
  qed
qed

lemma listeners_on_subset:
  assumes w: "well_formed b"
  shows "set (listeners (fst (on t' c b)) t)
           \<subseteq> set (listeners b t) \<union> (if t' = t then {c} else {})"
proof (cases "lookup b t'")
  case Inherited
  then show ?thesis by (simp add: on_def)
next
  case (Array a)
  then have e: "events b t' = Some a" by (simp add: lookup_Array)
  have "events b t = Some a \<Longrightarrow> t' = t" using well_formedD(2) [OF w e] by blast
  then show ?thesis using Array listeners_push [OF w, of a c t] by (auto simp: on_def split: if_splits)
next
  case Absent
  let ?b1 = "b\<lparr>arrays := arrays b @ [[]], events := (events b)(t' \<mapsto> length (arrays b))\<rparr>"
  have e: "events b t' = None" using Absent by (rule lookup_Absent)
  have w1: "well_formed ?b1" using well_formed_alloc [OF w e] .
  have o: "fst (on t' c b) = push (length (arrays b)) c ?b1"
    using Absent by (simp add: on_def new_array_def)
  show ?thesis
  proof (cases "t' = t")
    case True
    have "listeners ?b1 t = []" using True by (simp add: listeners_def lookup_def array_at_def)
    moreover have "listeners b t = []" using True e by (simp add: listeners_def lookup_def)
    ultimately show ?thesis
      using listeners_push [OF w1, of "length (arrays b)" c t] True o by auto
  next
    case False
    have "events ?b1 t \<noteq> Some (length (arrays b))"
      using False well_formedD(1) [OF w, of t "length (arrays b)"] by auto
    then show ?thesis
      using listeners_push [OF w1, of "length (arrays b)" c t] False o
        listeners_alloc_other [OF w False, of "[]"]
      by auto
  qed
qed

lemma listeners_once_subset:
  assumes w: "well_formed b"
  shows "set (listeners (fst (once t' i b)) t)
           \<subseteq> set (listeners b t) \<union> {Wrapper (length (wrappers b))}"
  using listeners_on_subset
    [of "b\<lparr>wrappers := wrappers b @ [(t', i)]\<rparr>" t' "Wrapper (length (wrappers b))" t] w
  by (auto simp: once_def split: if_splits)

lemma listeners_clear_subset: "set (listeners (clear u b) t) \<subseteq> set (listeners b t)"
  by (cases u) (auto simp: listeners_def lookup_def array_at_def split: option.splits if_splits)

text \<open>
  A callback that is known and not subscribed to a topic stays so as long as nothing
  subscribes it to the topic again.
\<close>

lemma frame_unsubscribed:
  "frame (\<lambda>b b'. unsubscribed b t cb \<longrightarrow> unsubscribed b' t cb) (\<lambda>act. act \<noteq> On t cb)"
proof -
  have 1: "unsubscribed (primitive act b) t cb"
    if "act \<noteq> On t cb" "unsubscribed b t cb" for act :: "'a action" and b
  proof -
    have w: "well_formed b" and k: "known b cb" and n: "cb \<notin> set (listeners b t)"
      using that(2) by (simp_all add: unsubscribed_def)
    have w': "well_formed (primitive act b)"
      by (cases act)
         (simp_all add: w well_formed_on well_formed_once well_formed_off well_formed_clear)
    have "extends b (primitive act b)"
      by (cases act)
         (simp_all add: extends_refl extends_on extends_once extends_off extends_clear)
    then have k': "known (primitive act b) cb" using k by (rule known_extends)
    have "cb \<noteq> Wrapper (length (wrappers b))" using k by (cases cb) auto
    then have "cb \<notin> set (listeners (primitive act b) t)"
    proof (cases act)
      case Throw
      then show ?thesis using n by simp
    next
      case (On u c)
      then show ?thesis
        using that(1) n listeners_on_subset [OF w, of u c t] by (auto split: if_splits)
    next
      case (Once u i)
      assume "cb \<noteq> Wrapper (length (wrappers b))"
      then show ?thesis
        using Once n listeners_once_subset [OF w, of u i t] by auto
    next
      case (Off u c)
      then show ?thesis using n listeners_off_subset [OF w, of u c t] by auto
    next
      case (Clear u)
      then show ?thesis using n listeners_clear_subset [of u b t] by auto
    next
      case (Emit u d)
      then show ?thesis using n by simp
    qed
    then show ?thesis using w' k' by (simp add: unsubscribed_def)
  qed
  have 2: "unsubscribed (fst (off u c b)) t cb" if "unsubscribed b t cb"
    for u c and b :: "'a EventBus"
    using that known_extends [OF extends_off] listeners_off_subset [of b u c t]
    by (auto simp: unsubscribed_def well_formed_off)
  show ?thesis
    unfolding frame_def using 1 2 by (auto simp: unsubscribed_def)
qed

lemma frame_registered:
  "frame (\<lambda>b b'. well_formed b \<and> known b cb \<longrightarrow> well_formed b' \<and> known b' cb) (\<lambda>act. True)"
proof -
  have 1: "well_formed (primitive act b) \<and> known (primitive act b) cb"
    if "well_formed b" "known b cb" for act :: "'a action" and b
  proof -
    have "extends b (primitive act b)"
      by (cases act)
         (simp_all add: extends_refl extends_on extends_once extends_off extends_clear)
    then have "known (primitive act b) cb" using that(2) by (rule known_extends)
    moreover have "well_formed (primitive act b)"
      by (cases act)
         (simp_all add: that(1) well_formed_on well_formed_once well_formed_off well_formed_clear)
    ultimately show ?thesis by simp
  qed
  have 2: "known (fst (off u c b)) cb" if "known b cb" for u c and b :: "'a EventBus"
    using that known_extends [OF extends_off] by blast
  show ?thesis
    unfolding frame_def using 1 2 by (auto simp: well_formed_off)
qed

lemma lookup_not_Inherited: "t \<notin> set Object_prototype \<Longrightarrow> lookup b t \<noteq> Inherited"
  by (simp add: lookup_def split: option.splits)

lemma on_Returned: "t \<notin> set Object_prototype \<Longrightarrow> snd (on t cb b) = Returned"
  using lookup_not_Inherited [of t b] by (cases "lookup b t") (simp_all add: on_def new_array_def)

lemma off_Returned: "t \<notin> set Object_prototype \<Longrightarrow> snd (off t cb b) = Returned"
  using lookup_not_Inherited [of t b] by (cases "lookup b t") (simp_all add: off_def new_array_def)

lemma once_Returned: "t \<notin> set Object_prototype \<Longrightarrow> snd (once t i b) = Returned"
  by (simp add: once_def on_Returned)

lemma run_actions_step:
  assumes kq: "results_in (\<lambda>b b'. well_formed b \<and> known b cb \<longrightarrow> well_formed b' \<and> known b' cb) em"
    and ret: "\<And>u d b b' out. u \<notin> set Object_prototype \<Longrightarrow> em u d b = Some (b', out)
                \<Longrightarrow> out = Returned"
    and q: "well_formed b" "known b cb"
    and nf: "\<not> may_fault act"
    and run: "run_actions em (act # acts) b = Some (b', out)"
  shows "\<exists>b1. run_actions em acts b1 = Some (b', out) \<and> well_formed b1 \<and> known b1 cb \<and>
              (act = Off t cb \<longrightarrow> b1 = fst (off t cb b))"
proof -
  have prim: "well_formed (primitive act b) \<and> known (primitive act b) cb"
    using frameD(3) [OF frame_registered [where cb = cb], where act = act and b = b] q by simp
  show ?thesis
  proof (cases act)
    case Throw
    then show ?thesis using nf by simp
  next
    case (On u c)
    then have "run_actions em acts (fst (on u c b)) = Some (b', out)"
      using run nf on_Returned [of u c b] by (cases "on u c b") simp
    then show ?thesis using prim On by auto
  next
    case (Once u i)
    then have "run_actions em acts (fst (once u i b)) = Some (b', out)"
      using run nf once_Returned [of u i b] by (cases "once u i b") simp
    then show ?thesis using prim Once by auto
  next
    case (Off u c)
    then have "run_actions em acts (fst (off u c b)) = Some (b', out)"
      using run nf off_Returned [of u c b] by (cases "off u c b") simp
    then show ?thesis using prim Off by auto
  next
    case (Clear u)
    then have "run_actions em acts (clear u b) = Some (b', out)" using run by simp
    then show ?thesis using prim Clear by auto
  next
    case (Emit u d)
    show ?thesis
    proof (cases "em u d b")
      case None
      then show ?thesis using run Emit by simp
    next
      case (Some p)
      obtain b1 o1 where p: "p = (b1, o1)" by (cases p)
      have "o1 = Returned" using ret [of u d b b1 o1] nf Emit Some p by simp
      then have "run_actions em acts b1 = Some (b', out)" using run Emit Some p by simp
      moreover have "well_formed b1 \<and> known b1 cb"
        using results_inD [OF kq, of u d b b1 o1] Some p q by simp
      ultimately show ?thesis using Emit by auto
    qed
  qed
qed

lemma run_actions_removes:
  assumes kq: "results_in (\<lambda>b b'. well_formed b \<and> known b cb \<longrightarrow> well_formed b' \<and> known b' cb) em"
    and kp: "results_in (\<lambda>b b'. unsubscribed b t cb \<longrightarrow> unsubscribed b' t cb) em"
    and ret: "\<And>u d b b' out. u \<notin> set Object_prototype \<Longrightarrow> em u d b = Some (b', out)
                \<Longrightarrow> out = Returned"
  shows "well_formed b \<Longrightarrow> known b cb \<Longrightarrow> On t cb \<notin> set acts \<Longrightarrow>
         Off t cb \<in> set (takeWhile (\<lambda>a. \<not> may_fault a) acts) \<Longrightarrow>
         run_actions em acts b = Some (b', out) \<Longrightarrow> unsubscribed b' t cb"
proof (induction acts arbitrary: b)
  case Nil
  then show ?case by simp
next
  case (Cons act acts)
  have nf: "\<not> may_fault act" using Cons.prems(4) by (auto split: if_splits)
  have here: "act = Off t cb \<or> Off t cb \<in> set (takeWhile (\<lambda>a. \<not> may_fault a) acts)"
    using Cons.prems(4) nf by auto
  have rest: "On t cb \<notin> set acts" using Cons.prems(3) by simp
  obtain b1 where run: "run_actions em acts b1 = Some (b', out)"
    and q1: "well_formed b1" "known b1 cb"
    and off: "act = Off t cb \<longrightarrow> b1 = fst (off t cb b)"
    using run_actions_step
      [where em = em and cb = cb and b = b and act = act and acts = acts and b' = b'
         and out = out and t = t]
      kq ret Cons.prems(1,2,5) nf
    by blast
  show ?case
  proof (cases "act = Off t cb")
    case True
    then have "cb \<notin> set (listeners b1 t)" using off by (simp add: listeners_off_same)
    then have u: "unsubscribed b1 t cb" using q1 by (simp add: unsubscribed_def)
    have al: "\<forall>act \<in> set acts. act \<noteq> On t cb" using rest by auto
    show ?thesis
      using run_actions_frame [OF frame_unsubscribed kp al run] u by simp
  next
    case False
    then have "Off t cb \<in> set (takeWhile (\<lambda>a. \<not> may_fault a) acts)" using here by simp
    then show ?thesis using Cons.IH [OF q1 rest _ run] by simp
  qed
qed

lemma deliver_user_removes:
  assumes kq: "results_in (\<lambda>b b'. well_formed b \<and> known b cb \<longrightarrow> well_formed b' \<and> known b' cb) em"
    and kp: "results_in (\<lambda>b b'. unsubscribed b t cb \<longrightarrow> unsubscribed b' t cb) em"
    and ret: "\<And>u d b b' out. u \<notin> set Object_prototype \<Longrightarrow> em u d b = Some (b', out)
                \<Longrightarrow> out = Returned"
    and q: "well_formed b" "known b cb"
    and body: "On t cb \<notin> set (prog i d)"
      "Off t cb \<in> set (takeWhile (\<lambda>a. \<not> may_fault a) (prog i d))"
    and c: "deliver em prog d (User i) b = Some (b', out)"
  shows "unsubscribed b' t cb"
proof -
  let ?b1 = "b\<lparr>delivered := delivered b @ [(User i, d)], invoked := invoked b @ [(i, d)]\<rparr>"
  obtain b2 o2 where s: "run_actions em (prog i d) ?b1 = Some (b2, o2)"
    using c by (auto simp: deliver_def call_callback_def call_user_def split: option.splits)
  have "unsubscribed b2 t cb"
    using run_actions_removes
      [where em = em and cb = cb and t = t and b = ?b1 and acts = "prog i d" and b' = b2
         and out = o2]
      kq kp ret body s q
    by simp
  moreover have "b' = b2 \<or> b' = b2\<lparr>logged := Suc (logged b2)\<rparr>"
    using c s by (cases o2) (auto simp: deliver_def call_callback_def call_user_def)
  ultimately show ?thesis by (auto simp: unsubscribed_def)
qed

lemma deliver_all_removes:
  assumes kq: "results_in (\<lambda>b b'. well_formed b \<and> known b cb \<longrightarrow> well_formed b' \<and> known b' cb) em"
    and kp: "results_in (\<lambda>b b'. unsubscribed b t cb \<longrightarrow> unsubscribed b' t cb) em"
    and ret: "\<And>u d b b' out. u \<notin> set Object_prototype \<Longrightarrow> em u d b = Some (b', out)
                \<Longrightarrow> out = Returned"
    and al: "\<forall>j. On t cb \<notin> set (prog j d)"
    and body: "Off t cb \<in> set (takeWhile (\<lambda>a. \<not> may_fault a) (prog i d))"
  shows "well_formed b \<Longrightarrow> known b cb \<Longrightarrow> User i \<in> set cbs \<Longrightarrow>
         deliver_all em prog d cbs b = Some b' \<Longrightarrow> unsubscribed b' t cb"
proof (induction cbs arbitrary: b)
  case Nil
  then show ?case by simp
next
  case (Cons c cbs)
  obtain b1 o1 where s: "deliver em prog d c b = Some (b1, o1)"
    and rest: "deliver_all em prog d cbs b1 = Some b'"
    using Cons.prems(4) by (auto split: option.splits)
  have al': "\<forall>j. \<forall>act \<in> set (prog j d). act \<noteq> On t cb" using al by auto
  show ?case
  proof (cases "c = User i")
    case True
    have "On t cb \<notin> set (prog i d)" using al by simp
    then have u: "unsubscribed b1 t cb"
      using deliver_user_removes
        [where em = em and cb = cb and t = t and b = b and prog = prog and i = i and d = d
           and b' = b1 and out = o1]
        kq kp ret Cons.prems(1,2) body s True
      by simp
    show ?thesis
      using deliver_all_frame
        [of "\<lambda>b b'. unsubscribed b t cb \<longrightarrow> unsubscribed b' t cb" "\<lambda>act. act \<noteq> On t cb"
            em prog d cbs b1 b', OF frame_unsubscribed kp al' rest] u
      by simp
  next
    case False
    then have m: "User i \<in> set cbs" using Cons.prems(3) by simp
    have "well_formed b1 \<and> known b1 cb"
      using deliver_frame
        [of "\<lambda>b b'. well_formed b \<and> known b cb \<longrightarrow> well_formed b' \<and> known b' cb"
            "\<lambda>act. True" em prog d c b b1 o1, OF frame_registered kq _ s] Cons.prems(1,2)
      by simp
    then show ?thesis using Cons.IH [OF _ _ m rest] by simp
  qed
qed

lemma emit_removes:
  assumes w: "well_formed b" and k: "known b cb"
    and al: "\<forall>j d'. On t cb \<notin> set (prog j d')"
    and i: "User i \<in> set (listeners b t)"
    and body: "Off t cb \<in> set (takeWhile (\<lambda>a. \<not> may_fault a) (prog i d))"
    and e: "emit (Suc n) prog t d b = Some (b', out)"
  shows "cb \<notin> set (listeners b' t)"
proof -
  have al': "\<forall>j d'. \<forall>act \<in> set (prog j d'). act \<noteq> On t cb" using al by auto
  have kq: "results_in (\<lambda>b b'. well_formed b \<and> known b cb \<longrightarrow> well_formed b' \<and> known b' cb)
              (emit n prog)"
    by (rule emit_frame [OF frame_registered]) simp
  have kp: "results_in (\<lambda>b b'. unsubscribed b t cb \<longrightarrow> unsubscribed b' t cb) (emit n prog)"
    by (rule emit_frame [OF frame_unsubscribed al'])
  have ret: "out = Returned" if "u \<notin> set Object_prototype" "emit n prog u d' b1 = Some (b2, out)"
    for u d' b1 b2 out
    using emit_outcome [OF lookup_not_Inherited [OF that(1)] that(2)] .
  have l: "lookup b t \<noteq> Inherited" using i by (auto simp: listeners_def)
  have da: "deliver_all (emit n prog) prog d (listeners b t) b = Some b'"
    using e unfolding emit_deliver_all [OF l] by auto
  have al1: "\<forall>j. On t cb \<notin> set (prog j d)" using al by simp
  show ?thesis
    using deliver_all_removes
      [where em = "emit n prog" and cb = cb and t = t and prog = prog and d = d and i = i
         and b = b and cbs = "listeners b t" and b' = b']
      kq kp ret al1 body w k i da
    by (simp add: unsubscribed_def)
qed

lemma emit_delivers_snapshot:
  assumes "emit (Suc n) prog t d b = Some (b', out)"
  shows "\<exists>rest. delivered b' = delivered b @ rest \<and>
                subseq (map (\<lambda>cb. (cb, d)) (listeners b t)) rest"
proof (cases "lookup b t = Inherited")
  case True
  then show ?thesis using assms by (auto simp: listeners_def)
next
  case False
  have ex: "results_in extends (emit n prog)"
    unfolding results_in_def by (intro allI impI) (erule emit_extends)
  have "deliver_all (emit n prog) prog d (listeners b t) b = Some b'"
    using assms unfolding emit_deliver_all [OF False] by auto
  then show ?thesis by (rule deliver_all_delivered [OF ex])
qed

lemma emit_no_publish:
  assumes "\<forall>i. \<forall>act \<in> set (prog i d). \<not> publishes act"
  shows "\<exists>b' out. emit (Suc n) prog t d b = Some (b', out) \<and>
                  delivered b' = delivered b @ map (\<lambda>cb. (cb, d)) (listeners b t)"
proof (cases "lookup b t = Inherited")
  case True
  then show ?thesis by (simp add: listeners_def)
next
  case False
  show ?thesis
    using deliver_all_no_publish [of prog d "emit n prog" "listeners b t" b] assms
    unfolding emit_deliver_all [OF False] by auto
qed

text \<open>
  C8. \<^verbatim>\<open>off\<close> does not touch any array object that exists (so not the one being
  traversed); it gives the topic a new array without the callback. One \<^verbatim>\<open>emit\<close> calls
  every listener that was registered for the topic when it began, in subscription order,
  whatever the listeners do in the meantime (the calls of nested passes come in
  between; without nested passes the calls are exactly the registered listeners). And
  the removal shows afterwards: when a listener \<open>User i\<close> of the pass reaches a call
  \<^verbatim>\<open>off(t, cb)\<close> before any fault, and no listener subscribes \<open>cb\<close> to \<open>t\<close> again,
  then \<open>cb\<close> is not registered for \<open>t\<close> after the pass.
\<close>

theorem off_during_emit:
  "(\<forall>a < length (arrays b). array_at (fst (off t cb b)) a = array_at b a) \<and>
   listeners (fst (off t cb b)) t = filter (\<lambda>c. c \<noteq> cb) (listeners b t) \<and>
   (lookup b t \<noteq> Inherited \<longrightarrow>
      emit (Suc n) prog t d b
        = map_option (\<lambda>b'. (b', Returned))
            (deliver_all (emit n prog) prog d (listeners b t) b)) \<and>
   (\<forall>b' out. emit (Suc n) prog t d b = Some (b', out) \<longrightarrow>
      (\<exists>rest. delivered b' = delivered b @ rest \<and>
              subseq (map (\<lambda>c. (c, d)) (listeners b t)) rest)) \<and>
   ((\<forall>i. \<forall>act \<in> set (prog i d). \<not> publishes act) \<longrightarrow>
      (\<exists>b' out. emit (Suc n) prog t d b = Some (b', out) \<and>
                delivered b' = delivered b @ map (\<lambda>c. (c, d)) (listeners b t))) \<and>
   (\<forall>b' out i.
      well_formed b \<and> known b cb \<and> (\<forall>j d'. On t cb \<notin> set (prog j d')) \<and>
      User i \<in> set (listeners b t) \<and>
      Off t cb \<in> set (takeWhile (\<lambda>a. \<not> may_fault a) (prog i d)) \<and>
      emit (Suc n) prog t d b = Some (b', out)
      \<longrightarrow> cb \<notin> set (listeners b' t))"
proof -
  have 1: "\<forall>a < length (arrays b). array_at (fst (off t cb b)) a = array_at b a"
    by (simp add: off_keeps_arrays)
  have 6: "cb \<notin> set (listeners b' t)"
    if "well_formed b \<and> known b cb \<and> (\<forall>j d'. On t cb \<notin> set (prog j d')) \<and>
        User i \<in> set (listeners b t) \<and>
        Off t cb \<in> set (takeWhile (\<lambda>a. \<not> may_fault a) (prog i d)) \<and>
        emit (Suc n) prog t d b = Some (b', out)" for b' out i
    using that emit_removes [of b cb t prog i d n b' out] by blast
  show ?thesis
    using 1 6 listeners_off_same [of t cb b] emit_deliver_all [of b t n prog d]
      emit_delivers_snapshot [of n prog t d b] emit_no_publish [of prog d n t b]
    by blast
qed


text \<open>
  The theorem on two listeners, the first subscribing elsewhere, unsubscribing the second
  and then raising a fault: both are called in this pass, and the second is no longer
  registered afterwards.
\<close>

theorem off_during_emit_witness:
  "\<exists>b' out. emit 1 first_removes_second ''t'' () two_listeners = Some (b', out) \<and>
            delivered b' = [(User 0, ()), (User 1, ())] \<and>
            User 1 \<notin> set (listeners b' ''t'')"
proof -
  have w: "well_formed two_listeners"
    by (simp add: two_listeners_def well_formed_on well_formed_new)
  have n: "\<forall>i. \<forall>act \<in> set (first_removes_second i ()). \<not> publishes act"
    by (simp add: first_removes_second_def)
  have a: "\<forall>j d'. On ''t'' (User 1) \<notin> set (first_removes_second j d')"
    by (simp add: first_removes_second_def)
  have l: "listeners two_listeners ''t'' = [User 0, User 1]" "delivered two_listeners = []"
    by code_simp+
  have f: "Off ''t'' (User 1)
             \<in> set (takeWhile (\<lambda>a. \<not> may_fault a) (first_removes_second 0 ()))"
    by (simp add: first_removes_second_def Object_prototype_def)
  note th = off_during_emit [of two_listeners "''t''" "User 1" 0 first_removes_second "()"]
  have "\<exists>b' out. emit (Suc 0) first_removes_second ''t'' () two_listeners = Some (b', out) \<and>
          delivered b' = delivered two_listeners
                           @ map (\<lambda>c. (c, ())) (listeners two_listeners ''t'')"
    using th n by blast
  then obtain b' out
    where e: "emit (Suc 0) first_removes_second ''t'' () two_listeners = Some (b', out)"
    and d: "delivered b' = [(User 0, ()), (User 1, ())]"
    using l by auto
  have i: "User 0 \<in> set (listeners two_listeners ''t'')" using l by simp
  have k: "known two_listeners (User 1)" by simp
  have "User 1 \<notin> set (listeners b' ''t'')"
    using th w k a i f e by blast
  then show ?thesis using e d by (auto simp del: emit.simps)
qed

text \<open>
  When the first listener calls \<^verbatim>\<open>off('constructor', ...)\<close> first, it ends there with a
  fault, which is logged, and the second listener stays registered.
\<close>

lemma off_with_inherited_name_faults:
  "map_option (\<lambda>r. (snd r, listeners (fst r) ''t'', logged (fst r)))
     (emit 1 first_uses_inherited_name ''t'' () two_listeners)
   = Some (Returned, [User 0, User 1], 1)"
  by code_simp

subsection \<open>Listeners subscribed with \<^verbatim>\<open>once\<close>\<close>

text \<open>
  The wrapper unsubscribes itself when its listener returns, and only then: a fault of
  the listener leaves the bus as the listener left it.
\<close>

lemma once_wrapper_returns:
  assumes "n < length (wrappers b)" "wrappers b ! n = (t, i)"
    "call_user em prog i d b = Some (b', Returned)"
  shows "call_callback em prog (Wrapper n) d b = Some (off t (Wrapper n) b')"
    and "Wrapper n \<notin> set (listeners (fst (off t (Wrapper n) b')) t)"
  using assms by (simp_all add: call_callback_def listeners_off_same)

lemma once_wrapper_faults:
  assumes "n < length (wrappers b)" "wrappers b ! n = (t, i)"
    "call_user em prog i d b = Some (b', Threw)"
  shows "call_callback em prog (Wrapper n) d b = Some (b', Threw)"
  using assms by (simp add: call_callback_def)

text \<open>
  C5. A listener subscribed with \<^verbatim>\<open>once\<close> that raises a fault is not unsubscribed: the
  wrapper is left before its call of \<^verbatim>\<open>off\<close>, stays registered, and the listener is
  called again by the next \<^verbatim>\<open>emit\<close>.
\<close>

theorem once_listener_that_faults_fires_again:
  "listeners once_subscribed ''t'' = [Wrapper 0] \<and>
   map_option (\<lambda>r. invoked (fst r)) (emit 1 always_faults ''t'' () once_subscribed)
     = Some [(0, ())] \<and>
   map_option (\<lambda>r. listeners (fst r) ''t'') (emit 1 always_faults ''t'' () once_subscribed)
     = Some [Wrapper 0] \<and>
   Option.bind (emit 1 always_faults ''t'' () once_subscribed)
     (\<lambda>r. map_option (\<lambda>r'. invoked (fst r')) (emit 1 always_faults ''t'' () (fst r)))
     = Some [(0, ()), (0, ())]"
  by code_simp

section \<open>Properties of characters\<close>

subsection \<open>Damage\<close>

text \<open>
  C3, as the code has it. After \<^verbatim>\<open>takeDamage(amount)\<close> the health is
  \<open>max 0 (health - amount)\<close>. When that is \<open>0\<close> the character is no longer alive
  and, if it has an owning engine, exactly the event \<^verbatim>\<open>character:died\<close> with the
  character is published on that engine's bus; a character without an engine publishes
  nothing. When the health stays above \<open>0\<close> nothing is published and \<open>isAlive\<close> is as
  before.
\<close>

theorem takeDamage_clamps_and_publishes:
  "health (fst (takeDamage amount c)) = max 0 (health c - amount) \<and>
   (health (fst (takeDamage amount c)) = 0 \<longrightarrow>
      \<not> isAlive (fst (takeDamage amount c)) \<and>
      (\<forall>e. engine c = Some e \<longrightarrow>
         snd (takeDamage amount c)
           = [(e, ''character:died'', Character_data (fst (takeDamage amount c)))]) \<and>
      (engine c = None \<longrightarrow> snd (takeDamage amount c) = [])) \<and>
   (health (fst (takeDamage amount c)) \<noteq> 0 \<longrightarrow>
      isAlive (fst (takeDamage amount c)) = isAlive c \<and> snd (takeDamage amount c) = [])"
  by (auto simp: takeDamage_def Let_def)

text \<open>
  C3 as claimed, for every character, fails: a character that no engine has taken in has
  \<^verbatim>\<open>engine == null\<close>, as every character has when it is built, and a blow that
  brings its health to \<open>0\<close> publishes nothing.
\<close>

theorem takeDamage_unregistered_counterexample:
  "engine hero = None \<and> health (fst (takeDamage 100 hero)) = 0 \<and>
   \<not> isAlive (fst (takeDamage 100 hero)) \<and> snd (takeDamage 100 hero) = []"
  by (simp add: hero_def Character_new_def js_or_def takeDamage_def Let_def)

text \<open>
  The amended statement on a character of health 100: registered, a blow of 150 and a
  blow of 30; not registered, a blow of 150.
\<close>

theorem takeDamage_clamps_and_publishes_witness:
  "health (fst (takeDamage 150 registered_hero)) = 0 \<and>
   \<not> isAlive (fst (takeDamage 150 registered_hero)) \<and>
   snd (takeDamage 150 registered_hero)
     = [(0, ''character:died'', Character_data (fst (takeDamage 150 registered_hero)))] \<and>
   health (fst (takeDamage 30 registered_hero)) = 70 \<and>
   health (fst (takeDamage 150 hero)) = 0 \<and>
   \<not> isAlive (fst (takeDamage 150 hero)) \<and>
   snd (takeDamage 150 hero) = []"
proof -
  have h: "health registered_hero = 100" "engine registered_hero = Some 0"
    "health hero = 100" "engine hero = None"
    by (simp_all add: registered_hero_def hero_def Character_new_def js_or_def)
  show ?thesis
    using takeDamage_clamps_and_publishes [of 150 registered_hero]
      takeDamage_clamps_and_publishes [of 30 registered_hero]
      takeDamage_clamps_and_publishes [of 150 hero] h
    by simp
qed

text \<open>
  C4, as the code has it. For a character registered with an engine, a call of
  \<^verbatim>\<open>takeDamage(amount)\<close> with \<open>amount \<ge> health\<close> leaves health \<open>0\<close> and
  \<open>isAlive\<close> false and publishes exactly one \<^verbatim>\<open>character:died\<close> event in that call.
  This holds for a character that is already dead as well (its health is \<open>0\<close>, so every
  \<open>amount \<ge> 0\<close> qualifies): the call leaves it as it is and publishes the event once
  more. There is no guard against publishing again.
\<close>

theorem takeDamage_lethal_each_time:
  assumes "engine c = Some e" "health c \<le> amount"
  shows "health (fst (takeDamage amount c)) = 0 \<and>
         \<not> isAlive (fst (takeDamage amount c)) \<and>
         snd (takeDamage amount c)
           = [(e, ''character:died'', Character_data (fst (takeDamage amount c)))] \<and>
         length (died_events (snd (takeDamage amount c))) = 1 \<and>
         (\<not> isAlive c \<and> health c = 0 \<longrightarrow> fst (takeDamage amount c) = c)"
  using assms by (auto simp: takeDamage_def Let_def died_events_def)

text \<open>
  C4 as claimed fails: a further \<^verbatim>\<open>takeDamage(5)\<close> on the dead character publishes
  \<^verbatim>\<open>character:died\<close> again.
\<close>

theorem takeDamage_lethal_counterexample:
  "health fallen_registered_hero = 0 \<and> \<not> isAlive fallen_registered_hero \<and>
   snd (takeDamage 5 fallen_registered_hero)
     = [(0, ''character:died'', Character_data fallen_registered_hero)]"
  by (simp add: fallen_registered_hero_def registered_hero_def hero_def Character_new_def
      js_or_def takeDamage_def Let_def)

text \<open>The amended statement on the lethal blow and on a later blow of 5.\<close>

theorem takeDamage_lethal_each_time_witness:
  "length (died_events (snd (takeDamage 100 registered_hero))) = 1 \<and>
   fst (takeDamage 100 registered_hero) = fallen_registered_hero \<and>
   length (died_events (snd (takeDamage 5 fallen_registered_hero))) = 1 \<and>
   fst (takeDamage 5 fallen_registered_hero) = fallen_registered_hero"
proof -
  have h: "health registered_hero = 100" "engine registered_hero = Some 0"
    by (simp_all add: registered_hero_def hero_def Character_new_def js_or_def)
  have f: "health fallen_registered_hero = 0" "engine fallen_registered_hero = Some 0"
    "\<not> isAlive fallen_registered_hero"
    by (simp_all add: fallen_registered_hero_def registered_hero_def hero_def Character_new_def
      js_or_def takeDamage_def Let_def)
  show ?thesis
    using takeDamage_lethal_each_time [of registered_hero 0 100]
      takeDamage_lethal_each_time [of fallen_registered_hero 0 5] h f
    by (simp add: fallen_registered_hero_def died_events_def)
qed

subsection \<open>Experience and levels\<close>

lemma levelUp_level: "level (fst (levelUp newLevel c)) = newLevel"
  by (simp add: levelUp_def Let_def)

lemma levelUp_experience: "experience (fst (levelUp newLevel c)) = experience c"
  by (simp add: levelUp_def Let_def)

lemma addExperience_experience:
  "experience (fst (addExperience amount c)) = experience c + amount"
  by (simp add: addExperience_def Let_def levelUp_experience)

lemma addExperience_level_mono: "level c \<le> level (fst (addExperience amount c))"
  by (simp add: addExperience_def Let_def levelUp_level)

lemma addExperience_engine: "engine (fst (addExperience amount c)) = engine c"
  by (simp add: addExperience_def Let_def levelUp_def)

lemma Math_floor_mono: "v \<le> w \<Longrightarrow> Math_floor v \<le> Math_floor w"
  by (simp add: Math_floor_def floor_mono)

lemma addExperience_keeps_level:
  assumes "level_of_experience c" "0 \<le> amount"
  shows "level_of_experience (fst (addExperience amount c))"
proof -
  have m: "Math_floor (experience c / 100) \<le> Math_floor ((experience c + amount) / 100)"
    using assms(2) by (intro Math_floor_mono) (simp add: divide_right_mono)
  show ?thesis
  proof (cases "Math_floor ((experience c + amount) / 100) + 1 > level c")
    case True
    then show ?thesis
      by (simp add: level_of_experience_def addExperience_def Let_def levelUp_level
          levelUp_experience)
  next
    case False
    then have "Math_floor ((experience c + amount) / 100) + 1 = level c"
      using m assms(1) by (simp add: level_of_experience_def)
    then show ?thesis using False
      by (simp add: level_of_experience_def addExperience_def Let_def)
  qed
qed

lemma fst_apply_operations_Cons:
  "fst (apply_operations (opn # opns) c) = fst (apply_operations opns (fst (apply_operation opn c)))"
  by (simp split: prod.splits)

lemma addExperience_all_keeps_level:
  "level_of_experience c \<Longrightarrow> \<forall>a \<in> set amounts. 0 \<le> a \<Longrightarrow>
     level_of_experience (fst (apply_operations (map AddExperience amounts) c))"
proof (induction amounts arbitrary: c)
  case Nil
  then show ?case by simp
next
  case (Cons a amounts)
  have "level_of_experience (fst (addExperience a c))"
    using Cons.prems by (simp add: addExperience_keeps_level)
  then show ?case using Cons.IH Cons.prems
    by (simp add: fst_apply_operations_Cons del: apply_operations.simps)
qed

lemma addExperience_all_engine:
  "engine (fst (apply_operations (map AddExperience amounts) c)) = engine c"
  by (induction amounts arbitrary: c)
     (simp_all add: fst_apply_operations_Cons addExperience_engine del: apply_operations.simps,
      simp)

lemma addExperience_zero:
  assumes "level_of_experience c"
  shows "addExperience 0 c = (c, [])"
  using assms by (simp add: level_of_experience_def addExperience_def Let_def)

lemma addExperience_one_event:
  assumes "engine c = Some e" "level c < Math_floor ((experience c + amount) / 100) + 1"
  shows "snd (addExperience amount c) =
           [(e, ''character:levelUp'',
             LevelUp_data (fst (addExperience amount c))
               (Math_floor ((experience c + amount) / 100) + 1))]"
  using assms by (simp add: addExperience_def Let_def levelUp_def)

text \<open>
  C6, as the code has it. Start from a character of level 1 with no experience and call
  \<^verbatim>\<open>addExperience\<close> with amounts that are not negative. After each call the level is
  \<open>floor (experience / 100) + 1\<close>; a further call (with any amount) never lowers the
  level; a call with amount \<open>0\<close> changes nothing and publishes nothing; and a call that
  raises the level, by however many levels, sets the final level at once and, for a
  character with an owning engine, publishes exactly one \<^verbatim>\<open>character:levelUp\<close> event,
  carrying that level.
\<close>

theorem addExperience_level:
  assumes "level c = 1" "experience c = 0" "\<forall>a \<in> set amounts. 0 \<le> a"
  shows "level (fst (apply_operations (map AddExperience amounts) c))
           = Math_floor (experience (fst (apply_operations (map AddExperience amounts) c)) / 100) + 1
         \<and> (\<forall>a. level (fst (apply_operations (map AddExperience amounts) c))
                \<le> level (fst (addExperience a (fst (apply_operations (map AddExperience amounts) c)))))
         \<and> addExperience 0 (fst (apply_operations (map AddExperience amounts) c))
             = (fst (apply_operations (map AddExperience amounts) c), [])
         \<and> (\<forall>a e. engine c = Some e \<and>
               level (fst (apply_operations (map AddExperience amounts) c))
                 < Math_floor ((experience (fst (apply_operations (map AddExperience amounts) c)) + a) / 100) + 1
              \<longrightarrow> level (fst (addExperience a (fst (apply_operations (map AddExperience amounts) c))))
                    = Math_floor ((experience (fst (apply_operations (map AddExperience amounts) c)) + a) / 100) + 1
                \<and> levelUp_events (snd (addExperience a (fst (apply_operations (map AddExperience amounts) c))))
                    = [(e, ''character:levelUp'',
                        LevelUp_data (fst (addExperience a (fst (apply_operations (map AddExperience amounts) c))))
                          (Math_floor ((experience (fst (apply_operations (map AddExperience amounts) c)) + a) / 100) + 1))])"
proof -
  let ?c = "fst (apply_operations (map AddExperience amounts) c)"
  have "level_of_experience c"
    using assms by (simp add: level_of_experience_def Math_floor_def)
  then have l: "level_of_experience ?c"
    using assms(3) by (rule addExperience_all_keeps_level)
  have e: "engine ?c = engine c" by (rule addExperience_all_engine)
  have 1: "level ?c = Math_floor (experience ?c / 100) + 1"
    using l by (simp add: level_of_experience_def)
  have 2: "\<forall>a. level ?c \<le> level (fst (addExperience a ?c))"
    by (simp add: addExperience_level_mono)
  have 3: "addExperience 0 ?c = (?c, [])" using l by (rule addExperience_zero)
  have 4: "\<forall>a e. engine c = Some e \<and> level ?c < Math_floor ((experience ?c + a) / 100) + 1
              \<longrightarrow> level (fst (addExperience a ?c)) = Math_floor ((experience ?c + a) / 100) + 1
                \<and> levelUp_events (snd (addExperience a ?c))
                    = [(e, ''character:levelUp'',
                        LevelUp_data (fst (addExperience a ?c))
                          (Math_floor ((experience ?c + a) / 100) + 1))]"
  proof (intro allI impI, elim conjE)
    fix a e
    assume en: "engine c = Some e"
      and lt: "level ?c < Math_floor ((experience ?c + a) / 100) + 1"
    have "snd (addExperience a ?c) = [(e, ''character:levelUp'',
             LevelUp_data (fst (addExperience a ?c)) (Math_floor ((experience ?c + a) / 100) + 1))]"
      using addExperience_one_event [of ?c e a] en e lt by simp
    moreover have "level (fst (addExperience a ?c)) = Math_floor ((experience ?c + a) / 100) + 1"
      using lt by (simp add: addExperience_def Let_def levelUp_level)
    ultimately show "level (fst (addExperience a ?c)) = Math_floor ((experience ?c + a) / 100) + 1
                \<and> levelUp_events (snd (addExperience a ?c))
                    = [(e, ''character:levelUp'',
                        LevelUp_data (fst (addExperience a ?c))
                          (Math_floor ((experience ?c + a) / 100) + 1))]"
      by (simp add: levelUp_events_def)
  qed
  show ?thesis using 1 2 3 4 by blast
qed

text \<open>
  C6 as claimed fails for a negative amount: after \<^verbatim>\<open>addExperience(250)\<close> and
  \<^verbatim>\<open>addExperience(-200)\<close> the level is still 3, with an experience of 50.
\<close>

theorem addExperience_level_counterexample:
  "level (fst (apply_operations (map AddExperience [250, - 200]) hero)) = 3 \<and>
   Math_floor (experience (fst (apply_operations (map AddExperience [250, - 200]) hero)) / 100) + 1 = 1"
  by (simp add: hero_def Character_new_def js_or_def addExperience_def levelUp_def Let_def
      Math_floor_def)

text \<open>
  The amended statement on the calls 30, 250, 0, and on the single call
  \<^verbatim>\<open>addExperience(250)\<close> of a fresh registered character: level 3, one event.
\<close>

theorem addExperience_level_witness:
  "level (fst (apply_operations (map AddExperience [30, 250, 0]) registered_hero)) = 3 \<and>
   level (fst (addExperience 250 registered_hero)) = 3 \<and>
   levelUp_events (snd (addExperience 250 registered_hero))
     = [(0, ''character:levelUp'', LevelUp_data (fst (addExperience 250 registered_hero)) 3)]"
proof -
  have h: "level registered_hero = 1" "experience registered_hero = 0"
    "engine registered_hero = Some 0"
    by (simp_all add: registered_hero_def hero_def Character_new_def js_or_def)
  have a: "\<forall>a \<in> set [30, 250, 0 :: real]. 0 \<le> a" by simp
  have n: "\<forall>a \<in> set ([] :: real list). 0 \<le> a" by simp
  have x: "experience (fst (apply_operations (map AddExperience [30, 250, 0]) registered_hero)) = 280"
    by (simp add: fst_apply_operations_Cons addExperience_experience h del: apply_operations.simps(2))
  have f: "Math_floor (280 / 100) + 1 = 3" "Math_floor (250 / 100) + 1 = 3"
    by (simp_all add: Math_floor_def)
  show ?thesis
    using addExperience_level [OF h(1) h(2) a] addExperience_level [OF h(1) h(2) n] h x f
    by simp
qed

section \<open>Properties of combat\<close>

lemma Math_round_ge_1: "1 \<le> v \<Longrightarrow> 1 \<le> Math_round v"
proof -
  assume "1 \<le> v"
  then have "(1::int) \<le> \<lfloor>v + 1 / 2\<rfloor>" by (simp add: le_floor_iff)
  then show ?thesis by (simp add: Math_round_def)
qed

lemma calculateDamage_ge_1: "1 \<le> calculateDamage random attacker defender baseMultiplier"
  by (simp add: calculateDamage_def Let_def Math_round_ge_1)

text \<open>
  C7. With the random draws as inputs: the hit chance is
  \<open>min 0.95 (0.5 + 0.01 * (attacker's dexterity - defender's dexterity))\<close>; when the
  first draw exceeds it, \<^verbatim>\<open>performAttack\<close> returns a miss with damage \<open>0\<close>, not
  critical, and the defender is as before and nothing is published; otherwise the result
  is a hit, its damage is at least \<open>1\<close>, and the defender and the events are those of
  \<^verbatim>\<open>takeDamage\<close> with that damage.
\<close>

theorem performAttack_miss_and_hit:
  "hitChance attacker defender
     = min (95 / 100) (1 / 2 + 1 / 100 * (dexterity (stats attacker) - dexterity (stats defender))) \<and>
   (random1 > hitChance attacker defender \<longrightarrow>
      performAttack random1 random2 random3 attacker defender
        = (\<lparr>hit = False, damage = 0, critical = False\<rparr>, defender, [])) \<and>
   (\<not> random1 > hitChance attacker defender \<longrightarrow>
      hit (fst (performAttack random1 random2 random3 attacker defender)) \<and>
      1 \<le> damage (fst (performAttack random1 random2 random3 attacker defender)) \<and>
      snd (performAttack random1 random2 random3 attacker defender)
        = takeDamage (damage (fst (performAttack random1 random2 random3 attacker defender)))
            defender)"
  by (simp add: performAttack_def hitChance_def Let_def calculateDamage_ge_1 mult.commute
      split: prod.splits)

text \<open>
  The theorem on two characters of dexterity 10 (hit chance one half): the draw 0.7
  misses, the draw 0.3 hits with damage 3. With dexterity 60 against 10 the chance is
  capped at 0.95.
\<close>

theorem performAttack_miss_and_hit_witness:
  "hitChance hero registered_hero = 1 / 2 \<and>
   hitChance rival hero = 95 / 100 \<and>
   performAttack (7 / 10) (1 / 2) (1 / 2) hero registered_hero
     = (\<lparr>hit = False, damage = 0, critical = False\<rparr>, registered_hero, []) \<and>
   damage (fst (performAttack (3 / 10) (1 / 2) (1 / 2) hero registered_hero)) = 3 \<and>
   snd (performAttack (3 / 10) (1 / 2) (1 / 2) hero registered_hero)
     = takeDamage 3 registered_hero"
proof -
  have d: "dexterity (stats hero) = 10" "dexterity (stats registered_hero) = 10"
    "dexterity (stats rival) = 60"
    by (simp_all add: registered_hero_def hero_def rival_def Character_new_def js_or_def)
  have h: "hitChance hero registered_hero = 1 / 2" "hitChance rival hero = 95 / 100"
    by (simp_all add: hitChance_def d)
  have c: "calculateDamage (1 / 2) hero registered_hero 1 = 3"
    by (simp add: calculateDamage_def calculateTotalAttack_def calculateTotalDefense_def
        add_defense_def Math_round_def Let_def registered_hero_def hero_def Character_new_def
        js_or_def)
  have g: "damage (fst (performAttack (3 / 10) (1 / 2) (1 / 2) hero registered_hero)) = 3"
    by (simp add: performAttack_def h d c Let_def split: prod.splits)
  show ?thesis
    using performAttack_miss_and_hit [of hero registered_hero "7 / 10" "1 / 2" "1 / 2"]
      performAttack_miss_and_hit [of hero registered_hero "3 / 10" "1 / 2" "1 / 2"] h g
    by simp
qed

section \<open>Properties of the entity registry\<close>

lemma Map_get_Map_set: "Map_get (Map_set k v m) = (Map_get m)(k \<mapsto> v)"
  by (induction m) (auto simp: Map_get_def)

text \<open>
  C9. When the registry holds at least \<^verbatim>\<open>maxEntities\<close> entities, \<^verbatim>\<open>addEntity\<close>
  returns false and the engine and the entity are unchanged and nothing is published.
  Below the maximum it returns true, the entity has the engine as its back-reference and
  is stored under its id (the other entries are as before), and \<^verbatim>\<open>entity:added\<close> is
  published with the entity.
\<close>

theorem addEntity_limit:
  "(config e ''maxEntities'' = Some m \<and> m \<le> real (Map_size (entities e)) \<longrightarrow>
      addEntity entity e = (False, e, entity, [])) \<and>
   (config e ''maxEntities'' = Some m \<and> real (Map_size (entities e)) < m \<longrightarrow>
      addEntity entity e
        = (True,
           e\<lparr>entities := Map_set (id' entity) (entity\<lparr>engine := Some (self e)\<rparr>) (entities e)\<rparr>,
           entity\<lparr>engine := Some (self e)\<rparr>,
           [(self e, ''entity:added'', entity\<lparr>engine := Some (self e)\<rparr>)]) \<and>
      Map_get (entities (fst (snd (addEntity entity e)))) (id' entity)
        = Some (entity\<lparr>engine := Some (self e)\<rparr>) \<and>
      (\<forall>k. k \<noteq> id' entity \<longrightarrow>
         Map_get (entities (fst (snd (addEntity entity e)))) k = Map_get (entities e) k))"
  by (simp add: addEntity_def limit_reached_def Let_def Map_get_Map_set)

text \<open>The theorem on an engine for one entity: the first is added, the second rejected.\<close>

theorem addEntity_limit_witness:
  "addEntity hero small_engine
     = (True, small_engine\<lparr>entities := [(1, registered_hero)]\<rparr>, registered_hero,
        [(0, ''entity:added'', registered_hero)]) \<and>
   addEntity rival (small_engine\<lparr>entities := [(1, registered_hero)]\<rparr>)
     = (False, small_engine\<lparr>entities := [(1, registered_hero)]\<rparr>, rival, [])"
proof -
  have c: "config small_engine ''maxEntities'' = Some 1" "entities small_engine = []"
    "self small_engine = 0"
    by (simp_all add: small_engine_def RPGEngine_new_def)
  have i: "id' hero = 1" by (simp add: hero_def Character_new_def)
  show ?thesis
    using addEntity_limit [of small_engine 1 hero]
      addEntity_limit [of "small_engine\<lparr>entities := [(1, registered_hero)]\<rparr>" 1 rival] c i
    by (simp add: Map_size_def registered_hero_def)
qed

section \<open>Properties of the constructor of characters\<close>

text \<open>
  C10. A \<^verbatim>\<open>config\<close> that sets a field to \<open>0\<close> builds the same character as one in
  which the field is absent: health \<open>0\<close> becomes 100, level \<open>0\<close> becomes 1, attack
  \<open>0\<close> becomes 5, mana \<open>0\<close> becomes 50. Every character is built alive, and neither its
  health nor any of its statistics whose default is not \<open>0\<close> can be \<open>0\<close>.
\<close>

theorem Character_new_zero_is_default:
  "Character_new i n (cfg(k \<mapsto> 0)) = Character_new i n (cfg(k := None)) \<and>
   (cfg ''health'' = Some 0 \<longrightarrow> health (Character_new i n cfg) = 100) \<and>
   (cfg ''level'' = Some 0 \<longrightarrow> level (Character_new i n cfg) = 1) \<and>
   (cfg ''attack'' = Some 0 \<longrightarrow> attack (Character_new i n cfg) = 5) \<and>
   (cfg ''mana'' = Some 0 \<longrightarrow> mana (Character_new i n cfg) = 50) \<and>
   isAlive (Character_new i n cfg) \<and>
   health (Character_new i n cfg) \<noteq> 0 \<and>
   maxHealth (Character_new i n cfg) \<noteq> 0 \<and>
   mana (Character_new i n cfg) \<noteq> 0 \<and>
   maxMana (Character_new i n cfg) \<noteq> 0 \<and>
   level (Character_new i n cfg) \<noteq> 0 \<and>
   attack (Character_new i n cfg) \<noteq> 0 \<and>
   defense (Character_new i n cfg) \<noteq> 0 \<and>
   attackSpeed (Character_new i n cfg) \<noteq> 0 \<and>
   movementSpeed (Character_new i n cfg) \<noteq> 0 \<and>
   strength (stats (Character_new i n cfg)) \<noteq> 0 \<and>
   dexterity (stats (Character_new i n cfg)) \<noteq> 0 \<and>
   constitution (stats (Character_new i n cfg)) \<noteq> 0 \<and>
   intelligence (stats (Character_new i n cfg)) \<noteq> 0 \<and>
   wisdom (stats (Character_new i n cfg)) \<noteq> 0 \<and>
   charisma (stats (Character_new i n cfg)) \<noteq> 0"
proof -
  have z: "js_or ((cfg(k \<mapsto> 0)) p) dflt = js_or ((cfg(k := None)) p) dflt" for p dflt
    by (simp add: js_or_def)
  have n: "dflt \<noteq> 0 \<Longrightarrow> js_or v dflt \<noteq> 0" for v dflt
    by (simp add: js_or_def split: option.splits)
  have "Character_new i n (cfg(k \<mapsto> 0)) = Character_new i n (cfg(k := None))"
    unfolding Character_new_def z ..
  moreover have "js_or (Some 0) dflt = dflt" for dflt by (simp add: js_or_def)
  ultimately show ?thesis by (simp add: Character_new_def n)
qed

text \<open>The theorem on a \<^verbatim>\<open>config\<close> with health, level, attack and mana set to \<open>0\<close>.\<close>

theorem Character_new_zero_is_default_witness:
  "health (Character_new 7 ''ghost'' zero_config) = 100 \<and>
   level (Character_new 7 ''ghost'' zero_config) = 1 \<and>
   attack (Character_new 7 ''ghost'' zero_config) = 5 \<and>
   mana (Character_new 7 ''ghost'' zero_config) = 50 \<and>
   isAlive (Character_new 7 ''ghost'' zero_config) \<and>
   Character_new 7 ''ghost'' [''health'' \<mapsto> 0] = Character_new 7 ''ghost'' Map.empty"
proof -
  have c: "zero_config ''health'' = Some 0" "zero_config ''level'' = Some 0"
    "zero_config ''attack'' = Some 0" "zero_config ''mana'' = Some 0"
    by (simp_all add: zero_config_def)
  show ?thesis
    using Character_new_zero_is_default [of 7 "''ghost''" zero_config]
      Character_new_zero_is_default [of 7 "''ghost''" Map.empty "''health''"] c
    by simp
qed

section \<open>The health invariant\<close>

lemma takeDamage_keeps_invariant:
  "health_invariant c \<Longrightarrow> 0 \<le> amount \<Longrightarrow> health_invariant (fst (takeDamage amount c))"
  by (auto simp: health_invariant_def takeDamage_def Let_def)

lemma heal_keeps_invariant:
  "health_invariant c \<Longrightarrow> 0 \<le> amount \<Longrightarrow> isAlive c \<Longrightarrow> health_invariant (heal amount c)"
  by (auto simp: health_invariant_def heal_def)

lemma levelUp_keeps_invariant:
  "health_invariant c \<Longrightarrow> level c \<le> newLevel \<Longrightarrow> isAlive c
     \<Longrightarrow> health_invariant (fst (levelUp newLevel c))"
  by (auto simp: health_invariant_def levelUp_def Let_def)

lemma addExperience_keeps_invariant:
  assumes inv: "health_invariant c" and alive: "isAlive c"
  shows "health_invariant (fst (addExperience amount c))"
proof -
  let ?c1 = "c\<lparr>experience := experience c + amount\<rparr>"
  have inv1: "health_invariant ?c1" using inv by (simp add: health_invariant_def)
  show ?thesis
  proof (cases "Math_floor (experience ?c1 / 100) + 1 > level ?c1")
    case True
    then show ?thesis
      using levelUp_keeps_invariant [OF inv1, of "Math_floor (experience ?c1 / 100) + 1"] alive
      by (simp add: addExperience_def Let_def)
  next
    case False
    then show ?thesis using inv1 by (simp add: addExperience_def Let_def)
  qed
qed

lemma apply_operation_keeps_invariant:
  "health_invariant c \<Longrightarrow> admissible opn c \<Longrightarrow> health_invariant (fst (apply_operation opn c))"
  by (cases opn)
     (simp_all add: takeDamage_keeps_invariant heal_keeps_invariant
        addExperience_keeps_invariant levelUp_keeps_invariant)

text \<open>
  C2, as the code has it. The predicate \<open>0 \<le> health \<le> maxHealth\<close>, and \<open>isAlive\<close>
  false exactly when health is \<open>0\<close>, is kept by every sequence of calls in which
  \<^verbatim>\<open>takeDamage\<close> and \<^verbatim>\<open>heal\<close> get amounts that are not negative, \<^verbatim>\<open>levelUp\<close> gets a
  level that is not below the current one, and \<^verbatim>\<open>heal\<close>, \<^verbatim>\<open>addExperience\<close> and
  \<^verbatim>\<open>levelUp\<close> are called on a character that is alive.
\<close>

theorem health_invariant_preserved:
  "health_invariant c \<Longrightarrow> all_admissible opns c
     \<Longrightarrow> health_invariant (fst (apply_operations opns c))"
proof (induction opns arbitrary: c)
  case Nil
  then show ?case by simp
next
  case (Cons opn opns)
  have "health_invariant (fst (apply_operation opn c))"
    using Cons.prems by (simp add: apply_operation_keeps_invariant)
  then have "health_invariant (fst (apply_operations opns (fst (apply_operation opn c))))"
    using Cons.IH Cons.prems by simp
  then show ?case by (simp only: fst_apply_operations_Cons)
qed

text \<open>
  C2 as claimed fails. On a fresh character: negative damage lifts health above its
  maximum, negative healing and a level-up to a lower level push it below \<open>0\<close>. On a
  dead character: healing, and a level-up (direct or through experience), restore health
  while \<open>isAlive\<close> stays false.
\<close>

theorem health_invariant_counterexample:
  "health_invariant hero \<and>
   \<not> health_invariant (fst (apply_operation (TakeDamage (- 50)) hero)) \<and>
   \<not> health_invariant (fst (apply_operation (Heal (- 200)) hero)) \<and>
   \<not> health_invariant (fst (apply_operation (LevelUp (- 20)) hero)) \<and>
   health_invariant fallen_hero \<and>
   \<not> health_invariant (fst (apply_operation (Heal 10) fallen_hero)) \<and>
   \<not> health_invariant (fst (apply_operation (AddExperience 100) fallen_hero)) \<and>
   \<not> health_invariant (fst (apply_operation (LevelUp 2) fallen_hero))"
  by (simp add: fallen_hero_def hero_def Character_new_def js_or_def health_invariant_def
      takeDamage_def heal_def levelUp_def addExperience_def Math_floor_def Let_def)

text \<open>
  The amended statement on a fresh character that is hurt, healed, gains two levels, is
  raised to level 5, is killed and is hit once more.
\<close>

theorem health_invariant_preserved_witness:
  "health_invariant (fst (apply_operations
      [TakeDamage 30, Heal 50, AddExperience 250, LevelUp 5, TakeDamage 1000, TakeDamage 3]
      hero))"
proof -
  have i: "health_invariant hero"
    by (simp add: hero_def Character_new_def js_or_def health_invariant_def)
  have a: "all_admissible
      [TakeDamage 30, Heal 50, AddExperience 250, LevelUp 5, TakeDamage 1000, TakeDamage 3] hero"
    by (simp add: hero_def Character_new_def js_or_def
      takeDamage_def heal_def levelUp_def addExperience_def Math_floor_def Let_def)
  show ?thesis using health_invariant_preserved [OF i a] .
qed

end
